theory Spec2Isabelle
  imports Main "HOL-Library.AList"
begin

section \<open>JavaScript values\<close>

text \<open>
  Instances, configurations and status objects are arbitrary JavaScript values. The
  engine only ever tests them for \<open>undefined\<close>, for nullishness (\<open>??\<close>) and for
  truthiness (\<open>!inst\<close>), so the model keeps just enough structure for these tests. An
  object is the list of its fields.
\<close>

datatype JsVal =
    JUndefined
  | JNull
  | JBool bool
  | JNum int
  | JStr string
  | JObj "(string \<times> JsVal) list"

fun truthy :: "JsVal \<Rightarrow> bool" where
  "truthy JUndefined = False"
| "truthy JNull = False"
| "truthy (JBool b) = b"
| "truthy (JNum n) = (n \<noteq> 0)"
| "truthy (JStr s) = (s \<noteq> [])"
| "truthy (JObj fs) = True"

text \<open>\<open>a ?? b\<close>\<close>

fun coalesce :: "JsVal \<Rightarrow> JsVal \<Rightarrow> JsVal" where
  "coalesce JUndefined b = b"
| "coalesce JNull b = b"
| "coalesce a b = a"

text \<open>
  The own properties of an object are enumerated (\<open>Object.keys\<close>, \<open>Object.values\<close>,
  spread) with the keys that are array indices first, in ascending numeric order, and the
  other keys after them, in the order in which they were created. A key is an array
  index when it is the canonical decimal text of an integer from 0 to \<open>2\<^sup>3\<^sup>2 - 2\<close>. An
  object is kept as the list of its properties in that order.
\<close>

definition isDigit :: "char \<Rightarrow> bool" where
  "isDigit c \<longleftrightarrow> c \<in> set ''0123456789''"

definition decimal :: "string \<Rightarrow> int" where
  "decimal k = fold (\<lambda>c n. 10 * n + (of_char c - 48)) k 0"

definition arrayIndex :: "string \<Rightarrow> int option" where
  "arrayIndex k =
     (if k \<noteq> [] \<and> list_all isDigit k \<and> (k = ''0'' \<or> hd k \<noteq> CHR ''0'')
         \<and> decimal k < 4294967295
      then Some (decimal k) else None)"

definition comesBefore :: "string \<Rightarrow> string \<Rightarrow> bool" where
  "comesBefore k k' \<longleftrightarrow>
     (case arrayIndex k of
        None \<Rightarrow> False
      | Some n \<Rightarrow> (case arrayIndex k' of None \<Rightarrow> True | Some n' \<Rightarrow> n < n'))"

fun objInsert :: "string \<Rightarrow> 'a \<Rightarrow> (string \<times> 'a) list \<Rightarrow> (string \<times> 'a) list" where
  "objInsert k v [] = [(k, v)]"
| "objInsert k v ((k', v') # rest) =
     (if comesBefore k k' then (k, v) # (k', v') # rest else (k', v') # objInsert k v rest)"

text \<open>\<open>obj[k] = v\<close>: an existing property keeps its place.\<close>

definition objSet :: "string \<Rightarrow> 'a \<Rightarrow> (string \<times> 'a) list \<Rightarrow> (string \<times> 'a) list" where
  "objSet k v obj = (if map_of obj k = None then objInsert k v obj else AList.update k v obj)"

text \<open>An object made from entries in turn: an object literal, \<open>Object.fromEntries\<close>.\<close>

definition objOf :: "(string \<times> 'a) list \<Rightarrow> (string \<times> 'a) list" where
  "objOf kvs = fold (\<lambda>(k, v). objSet k v) kvs []"

definition fromEntries :: "(string \<times> JsVal) list \<Rightarrow> JsVal" where
  "fromEntries kvs = JObj (objOf kvs)"

fun getField :: "JsVal \<Rightarrow> string \<Rightarrow> JsVal option" where
  "getField (JObj fs) k = map_of fs k"
| "getField v k = None"

type_synonym EnvVars = "string \<Rightarrow> string option"

section \<open>Types of the module stack\<close>

datatype ModState =
    M_added
  | M_configuring | M_configured | M_configuration_failed
  | M_initializing | M_initialized | M_initialization_failed
  | M_awaiting_finalization | M_finalizing | M_finalized | M_finalization_failed

datatype Phase =
    P_loading
  | P_configuring
  | P_configuration_failed
  | P_configured
  | P_starting
  | P_starting_failed
  | P_ready
  | P_stopping
  | P_stopping_failed
  | P_stopped

fun modStateName :: "ModState \<Rightarrow> string" where
  "modStateName M_added = ''added''"
| "modStateName M_configuring = ''configuring''"
| "modStateName M_configured = ''configured''"
| "modStateName M_configuration_failed = ''configuration_failed''"
| "modStateName M_initializing = ''initializing''"
| "modStateName M_initialized = ''initialized''"
| "modStateName M_initialization_failed = ''initialization_failed''"
| "modStateName M_awaiting_finalization = ''awaiting_finalization''"
| "modStateName M_finalizing = ''finalizing''"
| "modStateName M_finalized = ''finalized''"
| "modStateName M_finalization_failed = ''finalization_failed''"

fun phaseName :: "Phase \<Rightarrow> string" where
  "phaseName P_loading = ''loading''"
| "phaseName P_configuring = ''configuring''"
| "phaseName P_configuration_failed = ''configuration_failed''"
| "phaseName P_configured = ''configured''"
| "phaseName P_starting = ''starting''"
| "phaseName P_starting_failed = ''starting_failed''"
| "phaseName P_ready = ''ready''"
| "phaseName P_stopping = ''stopping''"
| "phaseName P_stopping_failed = ''stopping_failed''"
| "phaseName P_stopped = ''stopped''"

text \<open>
  \<open>ModstackError(code, msg)\<close>; \<open>TypeError\<close> stands for the runtime's own error when a
  method is called on \<open>undefined\<close> or a value has no text; \<open>Thrown\<close> is a value thrown by
  code of a descriptor.
\<close>

datatype Error = ModstackError string string | TypeError | Thrown JsVal

fun errorCode :: "Error \<Rightarrow> string" where
  "errorCode (ModstackError c m) = c"
| "errorCode TypeError = ''TypeError''"
| "errorCode (Thrown v) = (case getField v ''code'' of Some (JStr c) \<Rightarrow> c | _ \<Rightarrow> [])"

subsection \<open>Module descriptors\<close>

text \<open>
  A descriptor (\<open>Mod\<close>) is user code. Its synchronous \<open>configure\<close> either returns
  \<open>{ok: true, value}\<close>, returns \<open>{ok: false, failure}\<close> or throws; \<open>CfgThrows\<close> carries
  what the template \<open>`${err}`\<close> makes of the thrown value: its text, or the exception
  that the conversion to text throws itself (a \<open>TypeError\<close> for a \<open>Symbol\<close>, anything
  for an object with a \<open>toString\<close> of its own). Its \<open>initialize\<close> returns a promise:
  the value that promise settles with is not known when it is called, so it arrives
  later, as the payload of an event (\<open>InitResult\<close>). The one thing the synchronous part
  of \<open>initialize\<close> can do to the engine is call \<open>stop()\<close> of the lifecycle dependency;
  \<open>mod_initialize_calls_stop\<close> says whether it does. An exception in \<open>initialize\<close>,
  thrown at once or inside an \<open>async\<close> function, ends in the same \<open>catch\<close> (line 144)
  and is a rejection here.
\<close>

datatype CfgResult = CfgOk JsVal | CfgFailure "string list" | CfgThrows "Error + string"

record ModOptions =
  orderedFinalization :: "bool option"

record Mod =
  mod_configure :: "(EnvVars \<Rightarrow> CfgResult) option"
  mod_initialize_calls_stop :: bool
  mod_options :: "ModOptions option"

text \<open>
  The \<open>finalize\<close> callback that \<open>initialize\<close> may return, by what a call of it does:
  it returns a promise, which settles later, or it throws before returning one (a
  function that is not \<open>async\<close> can).
\<close>

datatype FinalizeFn = FinalizeAsync | FinalizeThrows Error

text \<open>
  What the promise of \<open>mod.initialize\<close> settles with: \<open>{instance, finalize?, status?}\<close>
  or a rejection. \<open>finalize\<close> and \<open>status\<close> are callbacks, present or not; the flag says
  whether \<open>status\<close> is present.
\<close>

datatype InitResult =
    InitResolved JsVal "FinalizeFn option" bool
  | InitRejected

text \<open>What a call of a descriptor's \<open>status\<close> callback does: the value it returns, or what it throws.\<close>

datatype CallOutcome = Returns JsVal | Throws Error

text \<open>
  What the promise of the descriptor's \<open>finalize\<close> settles with: a boolean, nothing
  (\<open>void\<close>), or a rejection.
\<close>

datatype FinResult = FinValue "bool option" | FinRejected

subsection \<open>Promises of the guide and of the engine\<close>

text \<open>
  The promise returned by a guide's \<open>async initialize()\<close>: not yet called, suspended at
  \<open>await mod.initialize(...)\<close> (the flag says that the callback's own call of \<open>stop()\<close>
  threw, so that its promise is rejected), fulfilled with \<open>inst ?? null\<close>, or rejected
  by the exception of \<open>getInstance\<close>.
\<close>

datatype InitPromise =
    InitNotCalled
  | InitAwaiting bool
  | InitReturned JsVal
  | InitThrew Error

text \<open>
  \<open>finalizationPromise\<close>, the promise of the \<open>async\<close> block in \<open>finalize()\<close>:
  suspended at \<open>await Promise.all(dependents.map(...))\<close> on the listed dependents,
  suspended at \<open>await finalize().catch(...)\<close>, fulfilled with the outcome, or rejected.
\<close>

datatype FinPromise =
    FinAwaitDependents "nat list"
  | FinAwaitCallback
  | FinFulfilled bool
  | FinFailed Error

text \<open>
  A value of \<open>depMap\<close>: a guide of the engine's list, named by its position there; a
  guide that is not in the list (its name was registered again, so that nothing will ever
  initialize it); or \<open>undefined\<close> (no guide of that name was registered).
\<close>

datatype DepRef = Listed nat | Orphan | Undefined

record ModGuide =
  name :: string
  modDesc :: Mod
  depMap :: "DepRef list"
  cfg :: JsVal
  inst :: JsVal
  dependents :: "nat list"
  finalizeCb :: "FinalizeFn option"
  finalizationPromise :: "FinPromise option"
  statusCb :: bool
  state :: ModState
  initPromise :: InitPromise

text \<open>
  \<open>makeModState\<close> (lines 78-90). \<open>depMap\<close> is given by its values, in the order of
  its keys; a dependent is named by its position in the engine's list of guides.
\<close>

definition makeModState :: "string \<Rightarrow> Mod \<Rightarrow> DepRef list \<Rightarrow> ModGuide" where
  "makeModState nm m deps =
     \<lparr> name = nm, modDesc = m, depMap = deps, cfg = JUndefined, inst = JUndefined,
       dependents = [], finalizeCb = None, finalizationPromise = None, statusCb = False,
       state = M_added, initPromise = InitNotCalled \<rparr>"

subsection \<open>The engine\<close>

record StartOptions =
  autoStopOnError :: "bool option"

record StartResult =
  started :: bool
  stopping :: "bool option"

datatype ConfigureResult = Ok | Failure "string list"

text \<open>
  The promise returned by the one call of \<open>start()\<close> that passed the phase check:
  suspended at \<open>await modGuide.initialize()\<close> of the guide at the given position, or
  settled.
\<close>

datatype StartPromise =
    StartNotCalled
  | StartAwaiting nat "StartOptions option"
  | StartResolved StartResult
  | StartRejected Error

text \<open>
  An entry of \<open>finalizationPromises\<close>: the promise of a guide's \<open>finalize()\<close>, or the
  \<open>Promise.resolve(finalizationOk)\<close> that replaced earlier entries.
\<close>

datatype FinEntry = OfGuide nat | Resolved bool

text \<open>
  The \<open>async\<close> block of \<open>stop()\<close>: suspended at \<open>await interruptStart.promise\<close>, or at
  \<open>await Promise.all(finalizationPromises)\<close> with the guides still to visit (the head is
  the flagged guide the loop stands at; the empty list is the last \<open>await\<close>, line 228).
\<close>

datatype StopTask =
    StopNotCalled
  | StopAwaitInterrupt
  | StopAwaitAll "nat list" "FinEntry list"
  | StopFinished
  | StopRejected Error

text \<open>
  What an observer sees of a run: phase changes (each is logged by \<open>changePhase\<close>),
  calls of descriptor callbacks, and the resolution of the \<open>stopped\<close> promise.
\<close>

datatype Observed =
    PhaseChanged Phase
  | ConfigureCalled nat
  | InitializeCalled nat
  | FinalizeCalled nat
  | StoppedResolved bool

text \<open>
  \<open>interruptStart\<close> is \<open>None\<close> for \<open>null\<close> and otherwise says whether the resolvable
  has been resolved; \<open>stopped\<close> is the value of the \<open>stopped\<close> promise, once resolved.
\<close>

record Lifecycle =
  modGuides :: "ModGuide list"
  phase :: Phase
  interruptStart :: "bool option"
  stopped :: "bool option"
  startPromise :: StartPromise
  stopTask :: StopTask
  trace :: "Observed list"

definition makeLifecycle :: "ModGuide list \<Rightarrow> Lifecycle" where
  "makeLifecycle gs =
     \<lparr> modGuides = gs, phase = P_loading, interruptStart = None, stopped = None,
       startPromise = StartNotCalled, stopTask = StopNotCalled, trace = [] \<rparr>"

definition updGuide :: "nat \<Rightarrow> (ModGuide \<Rightarrow> ModGuide) \<Rightarrow> Lifecycle \<Rightarrow> Lifecycle" where
  "updGuide i f s = s\<lparr>modGuides := (modGuides s)[i := f (modGuides s ! i)]\<rparr>"

definition observe :: "Observed \<Rightarrow> Lifecycle \<Rightarrow> Lifecycle" where
  "observe e s = s\<lparr>trace := trace s @ [e]\<rparr>"

section \<open>The module guide\<close>

text \<open>\<open>getOptions\<close>: \<open>mod.options ?? {}\<close>; a flag is set when it is truthy.\<close>

definition guide_getOptions :: "ModGuide \<Rightarrow> ModOptions" where
  "guide_getOptions g =
     (case mod_options (modDesc g) of
        None \<Rightarrow> \<lparr> orderedFinalization = None \<rparr>
      | Some opts \<Rightarrow> opts)"

definition isOrdered :: "ModGuide \<Rightarrow> bool" where
  "isOrdered g \<longleftrightarrow> orderedFinalization (guide_getOptions g) = Some True"

text \<open>
  \<open>configure\<close> (lines 106-128) of the guide at position \<open>i\<close>. Without a \<open>configure\<close>
  in the descriptor the configuration is \<open>null\<close>. The \<open>catch\<close> sets the state and then
  makes the text of what was thrown (lines 122-123); when that conversion throws, the
  exception leaves \<open>configure\<close>.
\<close>

definition guide_configure ::
  "EnvVars \<Rightarrow> nat \<Rightarrow> Lifecycle \<Rightarrow> (Error + ConfigureResult) \<times> Lifecycle" where
  "guide_configure envVars i s =
     (case mod_configure (modDesc (modGuides s ! i)) of
        None \<Rightarrow> (Inr Ok, updGuide i (\<lambda>g. g\<lparr>cfg := JNull, state := M_configured\<rparr>) s)
      | Some f \<Rightarrow>
          (let s1 = observe (ConfigureCalled i) (updGuide i (\<lambda>g. g\<lparr>state := M_configuring\<rparr>) s)
           in case f envVars of
                CfgOk v \<Rightarrow> (Inr Ok, updGuide i (\<lambda>g. g\<lparr>cfg := v, state := M_configured\<rparr>) s1)
              | CfgFailure fs \<Rightarrow>
                  (Inr (Failure fs), updGuide i (\<lambda>g. g\<lparr>state := M_configuration_failed\<rparr>) s1)
              | CfgThrows (Inr err) \<Rightarrow>
                  (Inr (Failure [err]), updGuide i (\<lambda>g. g\<lparr>state := M_configuration_failed\<rparr>) s1)
              | CfgThrows (Inl e) \<Rightarrow>
                  (Inl e, updGuide i (\<lambda>g. g\<lparr>state := M_configuration_failed\<rparr>) s1)))"

text \<open>
  \<open>getInstance\<close> (lines 150-156) of the guide at position \<open>d\<close>, called by the guide at
  position \<open>dependent\<close>. A position outside the list is a guide that does not exist.
\<close>

definition guide_getInstance :: "nat \<Rightarrow> nat \<Rightarrow> Lifecycle \<Rightarrow> Error + JsVal \<times> Lifecycle" where
  "guide_getInstance d dependent s =
     (if d < length (modGuides s) then
        (if inst (modGuides s ! d) = JUndefined then
           Inl (ModstackError ''uninitialized_instance''
                  ''Uninitialized instance cannot be retrieved.'')
         else
           Inr (inst (modGuides s ! d),
                updGuide d (\<lambda>g. g\<lparr>dependents := dependents g @ [dependent]\<rparr>) s))
      else Inl TypeError)"

text \<open>
  \<open>Object.keys(depMap).map(...)\<close> (lines 133-135): the dependencies are asked in turn;
  the first exception ends the loop, and earlier registrations stay. A guide outside the
  engine's list is never initialized, so its \<open>getInstance\<close> throws.
\<close>

definition dep_getInstance :: "DepRef \<Rightarrow> nat \<Rightarrow> Lifecycle \<Rightarrow> Error + JsVal \<times> Lifecycle" where
  "dep_getInstance r dependent s =
     (case r of
        Listed d \<Rightarrow> guide_getInstance d dependent s
      | Orphan \<Rightarrow> Inl (ModstackError ''uninitialized_instance''
                         ''Uninitialized instance cannot be retrieved.'')
      | Undefined \<Rightarrow> Inl TypeError)"

fun selectDeps :: "nat \<Rightarrow> DepRef list \<Rightarrow> Lifecycle \<Rightarrow> Error option \<times> Lifecycle" where
  "selectDeps i [] s = (None, s)"
| "selectDeps i (d # ds) s =
     (case dep_getInstance d i s of
        Inl e \<Rightarrow> (Some e, s)
      | Inr (v, s1) \<Rightarrow> selectDeps i ds s1)"

text \<open>\<open>finalized\<close> (lines 92-97): the promise it chains on, or the exception.\<close>

definition guide_finalized :: "nat \<Rightarrow> Lifecycle \<Rightarrow> Error + FinPromise" where
  "guide_finalized d s =
     (if d < length (modGuides s) then
        (case finalizationPromise (modGuides s ! d) of
           None \<Rightarrow> Inl (ModstackError ''not_finalizing''
                          ''Cannot wait for finalization when not finalizing.'')
         | Some p \<Rightarrow> Inr p)
      else Inl TypeError)"

fun finalizedAll :: "nat list \<Rightarrow> Lifecycle \<Rightarrow> Error option" where
  "finalizedAll [] s = None"
| "finalizedAll (d # ds) s =
     (case guide_finalized d s of Inl e \<Rightarrow> Some e | Inr p \<Rightarrow> finalizedAll ds s)"

text \<open>
  The end of the \<open>async\<close> block of \<open>finalize\<close> (lines 171-173), and its part from
  \<open>state = 'finalizing'\<close> to the \<open>await\<close> of the callback (lines 168-170); without a
  callback there is nothing to await and the block runs to its end. \<open>.catch\<close> is a method
  of the promise the callback returns: a callback that throws instead of returning one
  ends the block with that exception, and the promise of the block is rejected.
\<close>

definition finalization_finished :: "nat \<Rightarrow> bool \<Rightarrow> Lifecycle \<Rightarrow> Lifecycle" where
  "finalization_finished i finalizationResult s =
     updGuide i (\<lambda>g. g\<lparr>state := (if finalizationResult then M_finalized else M_finalization_failed),
                       finalizationPromise := Some (FinFulfilled finalizationResult)\<rparr>) s"

definition finalizing :: "nat \<Rightarrow> Lifecycle \<Rightarrow> Lifecycle" where
  "finalizing i s =
     (let s1 = updGuide i (\<lambda>g. g\<lparr>state := M_finalizing\<rparr>) s
      in case finalizeCb (modGuides s ! i) of
           None \<Rightarrow> finalization_finished i True s1
         | Some FinalizeAsync \<Rightarrow>
             observe (FinalizeCalled i)
               (updGuide i (\<lambda>g. g\<lparr>finalizationPromise := Some FinAwaitCallback\<rparr>) s1)
         | Some (FinalizeThrows e) \<Rightarrow>
             observe (FinalizeCalled i)
               (updGuide i (\<lambda>g. g\<lparr>finalizationPromise := Some (FinFailed e)\<rparr>) s1))"

text \<open>\<open>finalize\<close> (lines 157-177), up to its first \<open>await\<close>.\<close>

definition guide_finalize :: "nat \<Rightarrow> Lifecycle \<Rightarrow> Lifecycle" where
  "guide_finalize i s =
     (let g = modGuides s ! i in
      case finalizationPromise g of
        Some p \<Rightarrow> s
      | None \<Rightarrow>
          if \<not> truthy (inst g) then
            updGuide i (\<lambda>x. x\<lparr>finalizationPromise := Some (FinFulfilled True)\<rparr>) s
          else if dependents g \<noteq> [] then
            (let s1 = updGuide i (\<lambda>x. x\<lparr>state := M_awaiting_finalization\<rparr>) s
             in case finalizedAll (dependents g) s1 of
                  Some e \<Rightarrow> updGuide i (\<lambda>x. x\<lparr>finalizationPromise := Some (FinFailed e)\<rparr>) s1
                | None \<Rightarrow>
                    updGuide i (\<lambda>x. x\<lparr>finalizationPromise :=
                                         Some (FinAwaitDependents (dependents g))\<rparr>) s1)
          else finalizing i s)"

text \<open>
  \<open>Promise.all\<close> over promises of finalization: it rejects as soon as one of them is
  rejected, and is fulfilled once all of them are.
\<close>

fun firstRejection :: "FinPromise option list \<Rightarrow> Error option" where
  "firstRejection [] = None"
| "firstRejection (Some (FinFailed e) # ps) = Some e"
| "firstRejection (p # ps) = firstRejection ps"

fun isFulfilled :: "FinPromise option \<Rightarrow> bool" where
  "isFulfilled (Some (FinFulfilled b)) = True"
| "isFulfilled p = False"

fun isSettled :: "FinPromise option \<Rightarrow> bool" where
  "isSettled (Some (FinFulfilled b)) = True"
| "isSettled (Some (FinFailed e)) = True"
| "isSettled p = False"

definition finPromiseOf :: "Lifecycle \<Rightarrow> nat \<Rightarrow> FinPromise option" where
  "finPromiseOf s i = (if i < length (modGuides s) then finalizationPromise (modGuides s ! i) else None)"

text \<open>
  The block resumes after \<open>await Promise.all(dependents.map(...))\<close> (line 166), and
  after \<open>await finalize().catch(() => false) ?? true\<close> (line 170).
\<close>

definition finalize_dependents_settled :: "nat \<Rightarrow> Lifecycle \<Rightarrow> Lifecycle" where
  "finalize_dependents_settled i s =
     (case finPromiseOf s i of
        Some (FinAwaitDependents ds) \<Rightarrow>
          (case firstRejection (map (finPromiseOf s) ds) of
             Some e \<Rightarrow> updGuide i (\<lambda>g. g\<lparr>finalizationPromise := Some (FinFailed e)\<rparr>) s
           | None \<Rightarrow>
               if list_all isFulfilled (map (finPromiseOf s) ds) then finalizing i s else s)
      | _ \<Rightarrow> s)"

fun finalizationResultOf :: "FinResult \<Rightarrow> bool" where
  "finalizationResultOf FinRejected = False"
| "finalizationResultOf (FinValue None) = True"
| "finalizationResultOf (FinValue (Some b)) = b"

definition finalize_callback_settled :: "nat \<Rightarrow> FinResult \<Rightarrow> Lifecycle \<Rightarrow> Lifecycle" where
  "finalize_callback_settled i r s =
     (case finPromiseOf s i of
        Some FinAwaitCallback \<Rightarrow> finalization_finished i (finalizationResultOf r) s
      | _ \<Rightarrow> s)"

text \<open>
  \<open>status\<close> (lines 179-184): \<open>status?.() ?? {}\<close>. The descriptor's callback is called
  at every call; \<open>called\<close> is what that call does.
\<close>

definition guide_status :: "CallOutcome \<Rightarrow> ModGuide \<Rightarrow> Error + JsVal" where
  "guide_status called g =
     (if statusCb g then
        (case called of
           Returns v \<Rightarrow>
             Inr (JObj [(''state'', JStr (modStateName (state g))),
                        (''status'', coalesce v (JObj []))])
         | Throws e \<Rightarrow> Inl e)
      else Inr (JObj [(''state'', JStr (modStateName (state g))), (''status'', JObj [])]))"

section \<open>The lifecycle engine\<close>

text \<open>\<open>changePhase\<close> (lines 193-201).\<close>

definition phaseError :: "Phase \<Rightarrow> Phase \<Rightarrow> Error" where
  "phaseError newPhase currentPhase =
     ModstackError ''phase.incorrect''
       (''Cannot change lifecycle phase to '' @ [CHR 0x27] @ phaseName newPhase @ [CHR 0x27]
          @ '' from current phase '' @ [CHR 0x27] @ phaseName currentPhase @ [CHR 0x27] @ ''.'')"

definition changePhase :: "Phase \<Rightarrow> Phase list option \<Rightarrow> Lifecycle \<Rightarrow> Error + Lifecycle" where
  "changePhase newPhase allowedCurrentPhases s =
     (if (case allowedCurrentPhases of None \<Rightarrow> False | Some ps \<Rightarrow> phase s \<notin> set ps) then
        Inl (phaseError newPhase (phase s))
      else Inr (observe (PhaseChanged newPhase) (s\<lparr>phase := newPhase\<rparr>)))"

text \<open>The state of an entry of \<open>finalizationPromises\<close>.\<close>

fun entryPromise :: "Lifecycle \<Rightarrow> FinEntry \<Rightarrow> FinPromise option" where
  "entryPromise s (OfGuide i) = finPromiseOf s i"
| "entryPromise s (Resolved b) = Some (FinFulfilled b)"

text \<open>\<open>(await Promise.all(finalizationPromises)).every((ok) => ok)\<close>\<close>

definition everyOk :: "FinPromise option list \<Rightarrow> bool" where
  "everyOk ps = list_all (\<lambda>p. p = Some (FinFulfilled True)) ps"

text \<open>
  The loop of \<open>stop\<close> (lines 221-228) over the guides still to visit, up to its next
  \<open>await\<close>: before a guide flagged \<open>orderedFinalization\<close>, or after the last guide.
\<close>

fun stop_loop :: "nat list \<Rightarrow> FinEntry list \<Rightarrow> Lifecycle \<Rightarrow> Lifecycle" where
  "stop_loop [] finalizationPromises s = s\<lparr>stopTask := StopAwaitAll [] finalizationPromises\<rparr>"
| "stop_loop (i # rest) finalizationPromises s =
     (if isOrdered (modGuides s ! i) then s\<lparr>stopTask := StopAwaitAll (i # rest) finalizationPromises\<rparr>
      else stop_loop rest (finalizationPromises @ [OfGuide i]) (guide_finalize i s))"

text \<open>\<open>[...modGuides].reverse()\<close>, as positions.\<close>

definition reversedModGuides :: "Lifecycle \<Rightarrow> nat list" where
  "reversedModGuides s = rev [0..<length (modGuides s)]"

text \<open>
  \<open>stop\<close> (lines 203-234), up to the first \<open>await\<close> of its \<open>async\<close> block. The
  result is the exception thrown to the caller, if any, and the state left behind.
\<close>

definition lifecycle_stop :: "Lifecycle \<Rightarrow> Error option \<times> Lifecycle" where
  "lifecycle_stop s =
     (if phase s \<noteq> P_stopping \<and> phase s \<noteq> P_stopped then
        (let s1 = (if phase s = P_starting then s\<lparr>interruptStart := Some False\<rparr> else s)
         in case changePhase P_stopping (Some [P_ready, P_starting_failed, P_starting]) s1 of
              Inl e \<Rightarrow> (Some e, s1)
            | Inr s2 \<Rightarrow>
                (None, if interruptStart s2 \<noteq> None then s2\<lparr>stopTask := StopAwaitInterrupt\<rparr>
                       else stop_loop (reversedModGuides s2) [] s2))
      else (None, s))"

text \<open>
  The \<open>async\<close> block of \<open>stop\<close> resumes: after \<open>await interruptStart.promise\<close>, after
  the \<open>await\<close> before a flagged guide (lines 223-226, then on with the loop), or after the
  last one (lines 228-231). Resolving a promise a second time does nothing.
\<close>

definition stop_resume :: "Lifecycle \<Rightarrow> Lifecycle" where
  "stop_resume s =
     (case stopTask s of
        StopAwaitInterrupt \<Rightarrow>
          if interruptStart s = Some True then stop_loop (reversedModGuides s) [] s else s
      | StopAwaitAll todo finalizationPromises \<Rightarrow>
          (let ps = map (entryPromise s) finalizationPromises in
           case firstRejection ps of
             Some e \<Rightarrow> s\<lparr>stopTask := StopRejected e\<rparr>
           | None \<Rightarrow>
               if list_all isFulfilled ps then
                 (let finalizationOk = everyOk ps in
                  case todo of
                    i # rest \<Rightarrow>
                      stop_loop rest [Resolved finalizationOk, OfGuide i] (guide_finalize i s)
                  | [] \<Rightarrow>
                      (case changePhase (if finalizationOk then P_stopped else P_stopping_failed) None s of
                         Inl e \<Rightarrow> s\<lparr>stopTask := StopRejected e\<rparr>
                       | Inr s1 \<Rightarrow>
                           observe (StoppedResolved finalizationOk)
                             (s1\<lparr>stopped := (case stopped s1 of None \<Rightarrow> Some finalizationOk
                                                | Some ok \<Rightarrow> Some ok),
                                 stopTask := StopFinished\<rparr>)))
               else s)
      | _ \<Rightarrow> s)"

text \<open>
  \<open>initialize\<close> (lines 129-149) of the guide at position \<open>i\<close>, up to its \<open>await\<close>. The
  exception of \<open>getInstance\<close> is outside the \<open>try\<close> and rejects the promise of
  \<open>initialize\<close>; a call of \<open>stop()\<close> by the callback that throws is inside it.
\<close>

definition guide_initialize :: "nat \<Rightarrow> Lifecycle \<Rightarrow> Lifecycle" where
  "guide_initialize i s =
     (let g = modGuides s ! i in
      if cfg g \<noteq> JUndefined then
        (let s1 = updGuide i (\<lambda>x. x\<lparr>state := M_initializing\<rparr>) s
         in case selectDeps i (depMap g) s1 of
              (Some e, s2) \<Rightarrow> updGuide i (\<lambda>x. x\<lparr>initPromise := InitThrew e\<rparr>) s2
            | (None, s2) \<Rightarrow>
                (let s3 = observe (InitializeCalled i) s2 in
                 if mod_initialize_calls_stop (modDesc g) then
                   (case lifecycle_stop s3 of
                      (Some e, s4) \<Rightarrow> updGuide i (\<lambda>x. x\<lparr>initPromise := InitAwaiting True\<rparr>) s4
                    | (None, s4) \<Rightarrow> updGuide i (\<lambda>x. x\<lparr>initPromise := InitAwaiting False\<rparr>) s4)
                 else updGuide i (\<lambda>x. x\<lparr>initPromise := InitAwaiting False\<rparr>) s3))
      else updGuide i (\<lambda>x. x\<lparr>initPromise := InitReturned (coalesce (inst g) JNull)\<rparr>) s)"

text \<open>\<open>initialize\<close> resumes after \<open>await mod.initialize(cfg, selectedDeps)\<close> (lines 137-148).\<close>

definition initialize_settled :: "nat \<Rightarrow> InitResult \<Rightarrow> Lifecycle \<Rightarrow> Lifecycle" where
  "initialize_settled i r s =
     (if i < length (modGuides s) then
        (case initPromise (modGuides s ! i) of
           InitAwaiting threw \<Rightarrow>
             (case (if threw then InitRejected else r) of
                InitResolved instance fin st \<Rightarrow>
                  updGuide i (\<lambda>g. g\<lparr>inst := instance, finalizeCb := fin, statusCb := st,
                                    state := M_initialized,
                                    initPromise := InitReturned (coalesce instance JNull)\<rparr>) s
              | InitRejected \<Rightarrow>
                  updGuide i (\<lambda>g. g\<lparr>state := M_initialization_failed,
                                    initPromise := InitReturned (coalesce (inst g) JNull)\<rparr>) s)
         | _ \<Rightarrow> s)
      else s)"

text \<open>\<open>options?.autoStopOnError\<close>, as a condition.\<close>

definition wantsAutoStop :: "StartOptions option \<Rightarrow> bool" where
  "wantsAutoStop options \<longleftrightarrow> (case options of None \<Rightarrow> False | Some opts \<Rightarrow> autoStopOnError opts = Some True)"

text \<open>
  \<open>start\<close> (lines 251-270). \<open>start_iterate\<close> is the head of the \<open>for\<close> loop at position
  \<open>i\<close>, up to the \<open>await\<close>, or the code after the loop; \<open>start_after_initialize\<close> is the
  loop's body after the \<open>await\<close> (lines 256-266), with the awaited value \<open>v\<close>.
\<close>

definition start_iterate :: "nat \<Rightarrow> StartOptions option \<Rightarrow> Lifecycle \<Rightarrow> Lifecycle" where
  "start_iterate i options s =
     (if i < length (modGuides s) then (guide_initialize i s)\<lparr>startPromise := StartAwaiting i options\<rparr>
      else
        (case changePhase P_ready None s of
           Inl e \<Rightarrow> s\<lparr>startPromise := StartRejected e\<rparr>
         | Inr s1 \<Rightarrow> s1\<lparr>startPromise := StartResolved \<lparr>started = True, stopping = None\<rparr>\<rparr>))"

definition start_after_initialize :: "nat \<Rightarrow> StartOptions option \<Rightarrow> JsVal \<Rightarrow> Lifecycle \<Rightarrow> Lifecycle" where
  "start_after_initialize i options v s =
     (if interruptStart s \<noteq> None then
        s\<lparr>interruptStart := Some True,
          startPromise := StartResolved \<lparr>started = False, stopping = Some True\<rparr>\<rparr>
      else if \<not> truthy v then
        (case changePhase P_starting_failed None s of
           Inl e \<Rightarrow> s\<lparr>startPromise := StartRejected e\<rparr>
         | Inr s1 \<Rightarrow>
             if wantsAutoStop options then
               (case lifecycle_stop s1 of
                  (Some e, s2) \<Rightarrow> s2\<lparr>startPromise := StartRejected e\<rparr>
                | (None, s2) \<Rightarrow>
                    s2\<lparr>startPromise := StartResolved \<lparr>started = False, stopping = Some True\<rparr>\<rparr>)
             else s1\<lparr>startPromise := StartResolved \<lparr>started = False, stopping = Some False\<rparr>\<rparr>)
      else start_iterate (Suc i) options s)"

text \<open>
  \<open>start\<close> is an \<open>async\<close> function: it always returns a promise, and the exception of
  \<open>changePhase\<close> rejects that promise. The result is what the caller gets (an exception
  thrown to it, or the promise) and the state left behind.
\<close>

definition lifecycle_start :: "StartOptions option \<Rightarrow> Lifecycle \<Rightarrow> (Error + StartPromise) \<times> Lifecycle" where
  "lifecycle_start options s =
     (case changePhase P_starting (Some [P_configured]) s of
        Inl e \<Rightarrow> (Inr (StartRejected e), s)
      | Inr s1 \<Rightarrow> (let s2 = start_iterate 0 options s1 in (Inr (startPromise s2), s2)))"

definition start_resume :: "Lifecycle \<Rightarrow> Lifecycle" where
  "start_resume s =
     (case startPromise s of
        StartAwaiting i options \<Rightarrow>
          (if i < length (modGuides s) then
             (case initPromise (modGuides s ! i) of
                InitReturned v \<Rightarrow> start_after_initialize i options v s
              | InitThrew e \<Rightarrow> s\<lparr>startPromise := StartRejected e\<rparr>
              | _ \<Rightarrow> s)
           else s)
      | _ \<Rightarrow> s)"

text \<open>
  \<open>configure\<close> (lines 237-250); \<open>configure_all\<close> is the \<open>map\<close> of line 239, which an
  exception of a guide's \<open>configure\<close> ends.
\<close>

fun configure_all ::
  "EnvVars \<Rightarrow> nat list \<Rightarrow> Lifecycle \<Rightarrow> (Error + (string \<times> ConfigureResult) list) \<times> Lifecycle" where
  "configure_all envVars [] s = (Inr [], s)"
| "configure_all envVars (i # rest) s =
     (case guide_configure envVars i s of
        (Inl e, s1) \<Rightarrow> (Inl e, s1)
      | (Inr r, s1) \<Rightarrow>
          (case configure_all envVars rest s1 of
             (Inl e, s2) \<Rightarrow> (Inl e, s2)
           | (Inr rs, s2) \<Rightarrow> (Inr ((name (modGuides s ! i), r) # rs), s2)))"

fun prefixed :: "string \<times> ConfigureResult \<Rightarrow> string list" where
  "prefixed (nm, Ok) = []"
| "prefixed (nm, Failure fs) = map (\<lambda>f. ''['' @ nm @ ''] '' @ f) fs"

definition lifecycle_configure :: "EnvVars \<Rightarrow> Lifecycle \<Rightarrow> (Error + ConfigureResult) \<times> Lifecycle" where
  "lifecycle_configure envVars s =
     (case changePhase P_configuring (Some [P_loading]) s of
        Inl e \<Rightarrow> (Inl e, s)
      | Inr s1 \<Rightarrow>
          (case configure_all envVars [0..<length (modGuides s1)] s1 of
             (Inl e, s2) \<Rightarrow> (Inl e, s2)
           | (Inr configResults, s2) \<Rightarrow>
               (let result = (if list_all (\<lambda>r. snd r = Ok) configResults then Ok
                              else Failure (concat (map prefixed configResults)))
                in case changePhase (if result = Ok then P_configured else P_configuration_failed)
                          None s2 of
                     Inl e \<Rightarrow> (Inl e, s2)
                   | Inr s3 \<Rightarrow> (Inr result, s3))))"

text \<open>\<open>stopped\<close> (lines 272-274) and \<open>status\<close> (lines 275-280).\<close>

definition lifecycle_stopped :: "Lifecycle \<Rightarrow> bool option" where
  "lifecycle_stopped s = stopped s"

text \<open>
  The \<open>map\<close> of line 278 asks the guides in turn; \<open>calls\<close> says what the status callback
  of the guide at each position does at this call of \<open>status()\<close>.
\<close>

fun statusEntries ::
  "(nat \<Rightarrow> CallOutcome) \<Rightarrow> nat \<Rightarrow> ModGuide list \<Rightarrow> Error + (string \<times> JsVal) list" where
  "statusEntries calls i [] = Inr []"
| "statusEntries calls i (g # gs) =
     (case guide_status (calls i) g of
        Inl e \<Rightarrow> Inl e
      | Inr v \<Rightarrow>
          (case statusEntries calls (Suc i) gs of
             Inl e \<Rightarrow> Inl e
           | Inr kvs \<Rightarrow> Inr ((name g, v) # kvs)))"

definition lifecycle_status :: "(nat \<Rightarrow> CallOutcome) \<Rightarrow> Lifecycle \<Rightarrow> Error + JsVal" where
  "lifecycle_status calls s =
     (case statusEntries calls 0 (modGuides s) of
        Inl e \<Rightarrow> Inl e
      | Inr kvs \<Rightarrow>
          Inr (JObj [(''phase'', JStr (phaseName (phase s))), (''modules'', fromEntries kvs)]))"

section \<open>Runs\<close>

text \<open>
  Everything between two \<open>await\<close>s runs without interruption. A run is a sequence of
  events: a call of the engine from outside, a promise of a descriptor settling (the
  guide's code after the \<open>await\<close> runs with the outcome), or a suspended \<open>async\<close>
  function of the engine resuming, which it can only do once what it awaits has settled.
  An event that is not possible in a state leaves it as it is.
\<close>

datatype Event =
    CallConfigure EnvVars
  | CallStart "StartOptions option"
  | CallStop
  | InitializeSettles nat InitResult
  | StartResumes
  | StopResumes
  | DependentsSettled nat
  | FinalizeSettles nat FinResult

fun step :: "Event \<Rightarrow> Lifecycle \<Rightarrow> Lifecycle" where
  "step (CallConfigure envVars) s = snd (lifecycle_configure envVars s)"
| "step (CallStart options) s = snd (lifecycle_start options s)"
| "step CallStop s = snd (lifecycle_stop s)"
| "step (InitializeSettles i r) s = initialize_settled i r s"
| "step StartResumes s = start_resume s"
| "step StopResumes s = stop_resume s"
| "step (DependentsSettled i) s = finalize_dependents_settled i s"
| "step (FinalizeSettles i r) s = finalize_callback_settled i r s"

definition run :: "Event list \<Rightarrow> Lifecycle \<Rightarrow> Lifecycle" where
  "run evs s = fold step evs s"

section \<open>The builder\<close>

text \<open>
  \<open>makeModstack\<close> (lines 313-331). The builder holds the object \<open>modGuides\<close>, from
  names to guides. Guides are objects with an identity: \<open>made\<close> lists them in the order
  of their creation, each with its name, its descriptor and the values of its \<open>depMap\<close>
  (a guide, or \<open>undefined\<close> when \<open>modGuides\<close> has no such property; a property inherited
  from \<open>Object.prototype\<close> is no guide either, and the call of its \<open>getInstance\<close> throws
  the same \<open>TypeError\<close>), and \<open>guidesByName\<close> is the object, naming a guide by its
  number in \<open>made\<close>.
\<close>

record ModStackBuilder =
  made :: "(string \<times> Mod \<times> nat option list) list"
  guidesByName :: "(string \<times> nat) list"

text \<open>
  \<open>add\<close> (lines 318-330); \<open>depKeys\<close> is given by the entries of the object literal.
  The spread keeps the properties in their order and the new name is set after it.
\<close>

definition add :: "string \<Rightarrow> Mod \<Rightarrow> (string \<times> string) list \<Rightarrow> ModStackBuilder \<Rightarrow> ModStackBuilder" where
  "add nm m depKeys b =
     (let depModGuides = map (\<lambda>(depName, key). map_of (guidesByName b) key) (objOf depKeys)
      in \<lparr> made = made b @ [(nm, m, depModGuides)],
           guidesByName = objSet nm (length (made b)) (guidesByName b) \<rparr>)"

fun positionOf :: "'a \<Rightarrow> 'a list \<Rightarrow> nat option" where
  "positionOf x [] = None"
| "positionOf x (y # ys) = (if x = y then Some 0 else map_option Suc (positionOf x ys))"

text \<open>
  \<open>complete\<close> (lines 331-335): the engine gets \<open>Object.values(modGuides)\<close>. From here
  on a guide is named by its position in that list.
\<close>

definition complete :: "ModStackBuilder \<Rightarrow> Lifecycle" where
  "complete b =
     (let values = map snd (guidesByName b);
          ref = (\<lambda>d. case d of
                       None \<Rightarrow> Undefined
                     | Some g \<Rightarrow> (case positionOf g values of None \<Rightarrow> Orphan | Some p \<Rightarrow> Listed p))
      in makeLifecycle
           (map (\<lambda>g. case made b ! g of (nm, m, deps) \<Rightarrow> makeModState nm m (map ref deps)) values))"

text \<open>
  The reserved module \<open>lifecycle\<close> (\<open>makeLifecycleDep\<close>, lines 339-361): no
  \<open>configure\<close>, ordered finalization. \<open>complete\<close> has set the lifecycle before \<open>start\<close>
  can be called, so its \<open>initialize\<close> returns an instance, with neither \<open>finalize\<close> nor
  \<open>status\<close>.
\<close>

definition lifecycleMod :: Mod where
  "lifecycleMod = \<lparr> mod_configure = None, mod_initialize_calls_stop = False,
                    mod_options = Some \<lparr> orderedFinalization = Some True \<rparr> \<rparr>"

text \<open>\<open>modstack\<close> (lines 364-367).\<close>

definition modstack :: ModStackBuilder where
  "modstack = add ''lifecycle'' lifecycleMod [] \<lparr> made = [], guidesByName = [] \<rparr>"

section \<open>Example stacks\<close>

definition noEnv :: EnvVars where
  "noEnv = (\<lambda>k. None)"

definition plainMod :: Mod where
  "plainMod = \<lparr> mod_configure = Some (\<lambda>e. CfgOk JNull), mod_initialize_calls_stop = False,
                mod_options = None \<rparr>"

definition failingCfgMod :: Mod where
  "failingCfgMod = \<lparr> mod_configure = Some (\<lambda>e. CfgFailure [''x missing'', ''y missing'']),
                     mod_initialize_calls_stop = False, mod_options = None \<rparr>"

definition throwingCfgMod :: Mod where
  "throwingCfgMod = \<lparr> mod_configure = Some (\<lambda>e. CfgThrows (Inr ''Error: boom'')),
                      mod_initialize_calls_stop = False, mod_options = None \<rparr>"

text \<open>
  \<open>modstack({logger}).add('a', ...).add('b', ...).add('c', ...).complete()\<close>, and the
  engine after \<open>configure({})\<close>.
\<close>

definition cfgFailStack :: ModStackBuilder where
  "cfgFailStack = add ''c'' throwingCfgMod [] (add ''b'' failingCfgMod [] (add ''a'' plainMod [] modstack))"

definition cfgFailed :: Lifecycle where
  "cfgFailed = run [CallConfigure noEnv] (complete cfgFailStack)"

text \<open>A module registered under the name \<open>1\<close>, after the module \<open>a\<close>.\<close>

definition indexNamedStack :: ModStackBuilder where
  "indexNamedStack = add ''1'' plainMod [] (add ''a'' plainMod [] modstack)"

text \<open>A \<open>configure\<close> that throws a \<open>Symbol\<close>: the template literal of the \<open>catch\<close> throws a \<open>TypeError\<close>.\<close>

definition symbolCfgMod :: Mod where
  "symbolCfgMod = \<lparr> mod_configure = Some (\<lambda>e. CfgThrows (Inl TypeError)),
                    mod_initialize_calls_stop = False, mod_options = None \<rparr>"

definition symbolStack :: ModStackBuilder where
  "symbolStack = add ''b'' plainMod [] (add ''a'' symbolCfgMod [] modstack)"

text \<open>
  What \<open>initialize\<close> of the module \<open>lifecycle\<close> resolves with: an instance (an object;
  its two functions are not represented), neither \<open>finalize\<close> nor \<open>status\<close>. The engine
  with that module alone, started: \<open>configure({})\<close>, \<open>start()\<close>, the promise of
  \<open>initialize\<close> settles, \<open>start\<close> resumes.
\<close>

definition lifecycleInstance :: InitResult where
  "lifecycleInstance = InitResolved (JObj []) None False"

definition readyEngine :: Lifecycle where
  "readyEngine =
     run [CallConfigure noEnv, CallStart None, InitializeSettles 0 lifecycleInstance, StartResumes]
       (complete modstack)"

section \<open>Invariants of runs\<close>

definition guideAt :: "Lifecycle \<Rightarrow> nat \<Rightarrow> ModGuide" where
  "guideAt s k = modGuides s ! k"

definition guideCount :: "Lifecycle \<Rightarrow> nat" where
  "guideCount s = length (modGuides s)"

text \<open>How often the descriptor's \<open>finalize\<close> of the guide at position \<open>k\<close> has been called.\<close>

definition finalizeCalls :: "Lifecycle \<Rightarrow> nat \<Rightarrow> nat" where
  "finalizeCalls s k = count_list (trace s) (FinalizeCalled k)"

text \<open>The guide's \<open>initialize()\<close> has returned its (truthy) instance.\<close>

definition returnedTruthy :: "ModGuide \<Rightarrow> bool" where
  "returnedTruthy g \<longleftrightarrow> truthy (inst g) \<and> initPromise g = InitReturned (inst g)"

definition isAwaitingInit :: "InitPromise \<Rightarrow> bool" where
  "isAwaitingInit p \<longleftrightarrow> (case p of InitAwaiting t \<Rightarrow> True | _ \<Rightarrow> False)"

definition isStartResolved :: "StartPromise \<Rightarrow> bool" where
  "isStartResolved p \<longleftrightarrow> (case p of StartResolved r \<Rightarrow> True | _ \<Rightarrow> False)"

definition isStartPending :: "StartPromise \<Rightarrow> bool" where
  "isStartPending p \<longleftrightarrow> (case p of StartAwaiting j opts \<Rightarrow> True | StartRejected e \<Rightarrow> True | _ \<Rightarrow> False)"

text \<open>The block of \<open>stop\<close> has begun its pass over the guides: it awaits finalizations, or an exception has ended it.\<close>

definition inPass :: "StopTask \<Rightarrow> bool" where
  "inPass t \<longleftrightarrow> (case t of StopAwaitAll todo fps \<Rightarrow> True | StopRejected e \<Rightarrow> True | _ \<Rightarrow> False)"

definition interrupted :: StartResult where
  "interrupted = \<lparr>started = False, stopping = Some True\<rparr>"

text \<open>How the phase, the promise of \<open>start\<close>, the block of \<open>stop\<close> and \<open>interruptStart\<close> go together.\<close>

definition inv_ctl :: "Lifecycle \<Rightarrow> bool" where
  "inv_ctl s \<longleftrightarrow>
     (phase s \<in> {P_loading, P_configuring, P_configured, P_configuration_failed} \<longrightarrow>
          startPromise s = StartNotCalled \<and> stopTask s = StopNotCalled \<and> interruptStart s = None)
     \<and> (phase s = P_starting \<longrightarrow>
          isStartPending (startPromise s) \<and> stopTask s = StopNotCalled \<and> interruptStart s = None)
     \<and> (phase s \<in> {P_ready, P_starting_failed} \<longrightarrow>
          isStartResolved (startPromise s) \<and> stopTask s = StopNotCalled \<and> interruptStart s = None)
     \<and> (phase s = P_stopping \<longrightarrow> stopTask s = StopAwaitInterrupt \<or> inPass (stopTask s))
     \<and> (phase s \<in> {P_stopped, P_stopping_failed} \<longrightarrow> stopTask s = StopFinished)
     \<and> (stopTask s = StopAwaitInterrupt \<longrightarrow> phase s = P_stopping \<and> interruptStart s \<noteq> None)
     \<and> (inPass (stopTask s) \<longrightarrow>
          phase s = P_stopping \<and> isStartResolved (startPromise s) \<and> interruptStart s \<noteq> Some False)
     \<and> (stopTask s = StopFinished \<longrightarrow>
          phase s \<in> {P_stopped, P_stopping_failed} \<and> isStartResolved (startPromise s)
          \<and> interruptStart s \<noteq> Some False)
     \<and> (interruptStart s = Some False \<longrightarrow> isStartPending (startPromise s))
     \<and> (interruptStart s = Some True \<longrightarrow> startPromise s = StartResolved interrupted)
     \<and> (isStartResolved (startPromise s) \<longrightarrow> interruptStart s \<noteq> Some False)
     \<and> (PhaseChanged P_ready \<in> set (trace s) \<or> PhaseChanged P_starting_failed \<in> set (trace s) \<longrightarrow>
          interruptStart s = None \<and> isStartResolved (startPromise s))"

text \<open>
  The state of the guides when the loop of \<open>start\<close> is at position \<open>i\<close>: the guides
  before it have returned an instance, \<open>initialize\<close> of the guide at \<open>i\<close> has been called,
  and that of no later guide.
\<close>

definition loopAt :: "Lifecycle \<Rightarrow> nat \<Rightarrow> bool" where
  "loopAt s i \<longleftrightarrow>
     i < guideCount s
     \<and> (\<forall>j<i. returnedTruthy (guideAt s j))
     \<and> initPromise (guideAt s i) \<noteq> InitNotCalled
     \<and> (case initPromise (guideAt s i) of
           InitReturned v \<Rightarrow> v = coalesce (inst (guideAt s i)) JNull
         | _ \<Rightarrow> inst (guideAt s i) = JUndefined)
     \<and> (\<forall>k<guideCount s. i < k \<longrightarrow>
           initPromise (guideAt s k) = InitNotCalled \<and> inst (guideAt s k) = JUndefined)"

text \<open>
  How far \<open>start\<close> has come: the guides whose \<open>initialize\<close> has been called are the first
  ones, and all of them but the last have returned an instance. Once \<open>start\<close> has
  returned, either every guide has returned an instance, or the loop has ended at a
  position.
\<close>

definition inv_init :: "Lifecycle \<Rightarrow> bool" where
  "inv_init s \<longleftrightarrow>
     (\<forall>k<guideCount s.
        (initPromise (guideAt s k) \<noteq> InitNotCalled \<longrightarrow> (\<forall>j<k. returnedTruthy (guideAt s j)))
        \<and> (isAwaitingInit (initPromise (guideAt s k)) \<longrightarrow>
              (\<exists>opts. startPromise s = StartAwaiting k opts))
        \<and> (case initPromise (guideAt s k) of
              InitReturned v \<Rightarrow> v = coalesce (inst (guideAt s k)) JNull
            | _ \<Rightarrow> inst (guideAt s k) = JUndefined))
     \<and> (startPromise s = StartNotCalled \<longrightarrow>
          (\<forall>k<guideCount s. initPromise (guideAt s k) = InitNotCalled))
     \<and> (\<forall>j opts. startPromise s = StartAwaiting j opts \<longrightarrow>
          j < guideCount s \<and> initPromise (guideAt s j) \<noteq> InitNotCalled
          \<and> (\<forall>k<guideCount s. j < k \<longrightarrow> initPromise (guideAt s k) = InitNotCalled))
     \<and> (\<forall>r. startPromise s = StartResolved r \<longrightarrow>
          (started r \<longrightarrow> (\<forall>k<guideCount s. returnedTruthy (guideAt s k)))
          \<and> (\<not> started r \<longrightarrow> (\<exists>k. loopAt s k)))"

text \<open>A dependent is a later guide whose \<open>initialize\<close> has been called; a guide with a dependent has a truthy instance.\<close>

definition inv_deps :: "Lifecycle \<Rightarrow> bool" where
  "inv_deps s \<longleftrightarrow>
     (\<forall>k<guideCount s. \<forall>d\<in>set (dependents (guideAt s k)).
        k < d \<and> d < guideCount s \<and> truthy (inst (guideAt s k))
        \<and> initPromise (guideAt s d) \<noteq> InitNotCalled)"

definition inv :: "Lifecycle \<Rightarrow> bool" where
  "inv s \<longleftrightarrow> inv_ctl s \<and> inv_init s \<and> inv_deps s"

subsection \<open>The states the engine's functions leave behind\<close>

text \<open>The end of the pass (lines 228-231).\<close>

definition finished :: "bool \<Rightarrow> Lifecycle \<Rightarrow> Lifecycle" where
  "finished ok s =
     observe (StoppedResolved ok)
       ((observe (PhaseChanged (if ok then P_stopped else P_stopping_failed))
           (s\<lparr>phase := (if ok then P_stopped else P_stopping_failed)\<rparr>))
          \<lparr>stopped := (case stopped s of None \<Rightarrow> Some ok | Some x \<Rightarrow> Some x),
            stopTask := StopFinished\<rparr>)"

text \<open>The state after \<open>stop()\<close> in phase \<open>starting\<close>, and after its change of phase otherwise.\<close>

definition interruptRequested :: "Lifecycle \<Rightarrow> Lifecycle" where
  "interruptRequested s =
     (observe (PhaseChanged P_stopping) (s\<lparr>interruptStart := Some False, phase := P_stopping\<rparr>))
       \<lparr>stopTask := StopAwaitInterrupt\<rparr>"

definition stoppingBegun :: "Lifecycle \<Rightarrow> Lifecycle" where
  "stoppingBegun s = observe (PhaseChanged P_stopping) (s\<lparr>phase := P_stopping\<rparr>)"

text \<open>The guide after \<open>await mod.initialize(cfg, selectedDeps)\<close> has returned or thrown (lines 138-147).\<close>

definition settledGuide :: "InitResult \<Rightarrow> ModGuide \<Rightarrow> ModGuide" where
  "settledGuide r g =
     (case r of
        InitResolved instance fin st \<Rightarrow>
          g\<lparr>inst := instance, finalizeCb := fin, statusCb := st, state := M_initialized,
            initPromise := InitReturned (coalesce instance JNull)\<rparr>
      | InitRejected \<Rightarrow>
          g\<lparr>state := M_initialization_failed,
            initPromise := InitReturned (coalesce (inst g) JNull)\<rparr>)"

text \<open>What the calls of \<open>getInstance\<close> by the guide at position \<open>i\<close> leave alone: all but the lists of dependents of guides that have an instance, which may get \<open>i\<close>.\<close>

definition regFrame :: "nat \<Rightarrow> Lifecycle \<Rightarrow> Lifecycle \<Rightarrow> bool" where
  "regFrame i s s' \<longleftrightarrow>
     guideCount s' = guideCount s \<and> phase s' = phase s \<and> startPromise s' = startPromise s
     \<and> stopTask s' = stopTask s \<and> interruptStart s' = interruptStart s
     \<and> stopped s' = stopped s \<and> trace s' = trace s
     \<and> (\<forall>k. initPromise (guideAt s' k) = initPromise (guideAt s k)
              \<and> inst (guideAt s' k) = inst (guideAt s k)
              \<and> state (guideAt s' k) = state (guideAt s k)
              \<and> finalizationPromise (guideAt s' k) = finalizationPromise (guideAt s k)
              \<and> modDesc (guideAt s' k) = modDesc (guideAt s k))
     \<and> (\<forall>k. set (dependents (guideAt s' k)) \<subseteq> insert i (set (dependents (guideAt s k))))
     \<and> (\<forall>k. dependents (guideAt s' k) \<noteq> dependents (guideAt s k) \<longrightarrow>
              k < guideCount s \<and> inst (guideAt s k) \<noteq> JUndefined)"

text \<open>What \<open>initialize\<close> of the guide at position \<open>i\<close> does, called in phase \<open>starting\<close>.\<close>

definition initFrame :: "nat \<Rightarrow> Lifecycle \<Rightarrow> Lifecycle \<Rightarrow> bool" where
  "initFrame i s s' \<longleftrightarrow>
     guideCount s' = guideCount s \<and> startPromise s' = startPromise s \<and> stopped s' = stopped s
     \<and> (\<forall>k. inst (guideAt s' k) = inst (guideAt s k)
              \<and> finalizationPromise (guideAt s' k) = finalizationPromise (guideAt s k)
              \<and> modDesc (guideAt s' k) = modDesc (guideAt s k))
     \<and> (\<forall>k. k \<noteq> i \<longrightarrow> initPromise (guideAt s' k) = initPromise (guideAt s k)
              \<and> state (guideAt s' k) = state (guideAt s k))
     \<and> (state (guideAt s' i) = state (guideAt s i) \<or> state (guideAt s' i) = M_initializing)
     \<and> (initPromise (guideAt s' i) = InitReturned (coalesce (inst (guideAt s i)) JNull)
          \<or> (inst (guideAt s i) = JUndefined
               \<and> ((\<exists>e. initPromise (guideAt s' i) = InitThrew e)
                    \<or> initPromise (guideAt s' i) = InitAwaiting False)))
     \<and> (\<forall>k. set (dependents (guideAt s' k)) \<subseteq> insert i (set (dependents (guideAt s k))))
     \<and> (\<forall>k. dependents (guideAt s' k) \<noteq> dependents (guideAt s k) \<longrightarrow>
              k < guideCount s \<and> inst (guideAt s k) \<noteq> JUndefined)
     \<and> ((phase s' = phase s \<and> stopTask s' = stopTask s \<and> interruptStart s' = interruptStart s)
          \<or> (phase s' = P_stopping \<and> stopTask s' = StopAwaitInterrupt
               \<and> interruptStart s' = Some False))
     \<and> (\<exists>xs. trace s' = trace s @ xs \<and> set xs \<subseteq> {InitializeCalled i, PhaseChanged P_stopping})"

text \<open>The code after the loop (lines 267-268).\<close>

definition startedAll :: "Lifecycle \<Rightarrow> Lifecycle" where
  "startedAll s =
     (observe (PhaseChanged P_ready) (s\<lparr>phase := P_ready\<rparr>))
       \<lparr>startPromise := StartResolved \<lparr>started = True, stopping = None\<rparr>\<rparr>"

text \<open>The states \<open>start\<close> leaves behind when it returns without having started every module.\<close>

definition startInterrupted :: "Lifecycle \<Rightarrow> Lifecycle" where
  "startInterrupted s = s\<lparr>interruptStart := Some True, startPromise := StartResolved interrupted\<rparr>"

definition startFailed :: "bool \<Rightarrow> Lifecycle \<Rightarrow> Lifecycle" where
  "startFailed auto s =
     (observe (PhaseChanged P_starting_failed) (s\<lparr>phase := P_starting_failed\<rparr>))
       \<lparr>startPromise := StartResolved \<lparr>started = False, stopping = Some auto\<rparr>\<rparr>"

text \<open>
  What the finalization of guides and the pass of \<open>stop\<close> leave alone: the phase, what
  \<open>start\<close> has left behind, and whether the trace has the changes of phase made by
  \<open>start\<close>.
\<close>

definition keepsStart :: "Lifecycle \<Rightarrow> Lifecycle \<Rightarrow> bool" where
  "keepsStart s s' \<longleftrightarrow>
     guideCount s' = guideCount s \<and> phase s' = phase s \<and> startPromise s' = startPromise s
     \<and> interruptStart s' = interruptStart s
     \<and> (\<forall>k. initPromise (guideAt s' k) = initPromise (guideAt s k)
              \<and> inst (guideAt s' k) = inst (guideAt s k)
              \<and> dependents (guideAt s' k) = dependents (guideAt s k)
              \<and> modDesc (guideAt s' k) = modDesc (guideAt s k))
     \<and> (\<forall>p. PhaseChanged p \<in> set (trace s') \<longleftrightarrow> PhaseChanged p \<in> set (trace s))"

text \<open>What \<open>configure\<close> of guides leaves alone.\<close>

definition cfgFrame :: "Lifecycle \<Rightarrow> Lifecycle \<Rightarrow> bool" where
  "cfgFrame s s' \<longleftrightarrow>
     guideCount s' = guideCount s \<and> phase s' = phase s \<and> startPromise s' = startPromise s
     \<and> stopTask s' = stopTask s \<and> interruptStart s' = interruptStart s
     \<and> stopped s' = stopped s
     \<and> (\<forall>k. initPromise (guideAt s' k) = initPromise (guideAt s k)
              \<and> inst (guideAt s' k) = inst (guideAt s k)
              \<and> dependents (guideAt s' k) = dependents (guideAt s k)
              \<and> finalizationPromise (guideAt s' k) = finalizationPromise (guideAt s k))
     \<and> (\<exists>xs. trace s' = trace s @ xs \<and> (\<forall>e\<in>set xs. \<exists>i. e = ConfigureCalled i))"


text \<open>What stays as it is once \<open>start\<close> has returned: which guides have been initialized, and their instances.\<close>

definition frozen :: "Lifecycle \<Rightarrow> Lifecycle \<Rightarrow> bool" where
  "frozen s s' \<longleftrightarrow>
     guideCount s' = guideCount s \<and> startPromise s' = startPromise s
     \<and> (\<forall>k. initPromise (guideAt s' k) = initPromise (guideAt s k)
              \<and> inst (guideAt s' k) = inst (guideAt s k))"
section \<open>Example runs\<close>

text \<open>
  What the promise of a descriptor's \<open>initialize\<close> resolves with in the examples: an
  instance alone; an instance and an \<open>async\<close> \<open>finalize\<close>; an instance and a \<open>finalize\<close>
  that is not \<open>async\<close> and throws; the instance \<open>0\<close>.
\<close>

definition plainInstance :: InitResult where
  "plainInstance = InitResolved (JObj []) None False"

definition asyncFinalizeInstance :: InitResult where
  "asyncFinalizeInstance = InitResolved (JObj []) (Some FinalizeAsync) False"

definition throwingFinalizeInstance :: InitResult where
  "throwingFinalizeInstance = InitResolved (JObj []) (Some (FinalizeThrows (Thrown (JStr ''boom'')))) False"

definition zeroInstance :: InitResult where
  "zeroInstance = InitResolved (JNum 0) (Some FinalizeAsync) False"

definition orderedMod :: Mod where
  "orderedMod = \<lparr> mod_configure = Some (\<lambda>e. CfgOk JNull), mod_initialize_calls_stop = False,
                  mod_options = Some \<lparr> orderedFinalization = Some True \<rparr> \<rparr>"

text \<open>
  \<open>modstack({logger}).add('a', ...).add('b', ...).complete()\<close>, configured and started:
  the \<open>finalize\<close> of \<open>a\<close> throws, that of \<open>b\<close> is \<open>async\<close>. Then \<open>stop()\<close>; the block of
  \<open>stop\<close> resumes, the promise of \<open>b\<close>'s \<open>finalize\<close> is fulfilled, and the block is given
  another chance to resume.
\<close>

definition throwingStack :: ModStackBuilder where
  "throwingStack = add ''b'' plainMod [] (add ''a'' plainMod [] modstack)"

definition throwingStarted :: Lifecycle where
  "throwingStarted =
     run [CallConfigure noEnv, CallStart None,
          InitializeSettles 0 lifecycleInstance, StartResumes,
          InitializeSettles 1 throwingFinalizeInstance, StartResumes,
          InitializeSettles 2 asyncFinalizeInstance, StartResumes]
       (complete throwingStack)"

definition throwingStopped :: Lifecycle where
  "throwingStopped =
     run [CallStop, StopResumes, FinalizeSettles 2 (FinValue None), StopResumes] throwingStarted"

text \<open>
  A module \<open>p\<close> and two modules that take its instance: the \<open>finalize\<close> of \<open>d1\<close> throws,
  that of \<open>d2\<close> is \<open>async\<close> and its promise stays pending. After \<open>stop()\<close>, the
  \<open>Promise.all\<close> in the \<open>finalize\<close> of \<open>p\<close> settles.
\<close>

definition dependentsStack :: ModStackBuilder where
  "dependentsStack =
     add ''d2'' plainMod [(''p'', ''p'')]
       (add ''d1'' plainMod [(''p'', ''p'')] (add ''p'' plainMod [] modstack))"

definition dependentsStarted :: Lifecycle where
  "dependentsStarted =
     run [CallConfigure noEnv, CallStart None,
          InitializeSettles 0 lifecycleInstance, StartResumes,
          InitializeSettles 1 asyncFinalizeInstance, StartResumes,
          InitializeSettles 2 throwingFinalizeInstance, StartResumes,
          InitializeSettles 3 asyncFinalizeInstance, StartResumes]
       (complete dependentsStack)"

definition dependentsStopping :: Lifecycle where
  "dependentsStopping = run [CallStop, DependentsSettled 1] dependentsStarted"

text \<open>
  A module \<open>x\<close>, and after it a module flagged \<open>orderedFinalization\<close> under the name
  \<open>5\<close>. Started; then \<open>stop()\<close>, and the promise of \<open>x\<close>'s \<open>finalize\<close> is fulfilled.
\<close>

definition flaggedStack :: ModStackBuilder where
  "flaggedStack = add ''5'' orderedMod [] (add ''x'' plainMod [] modstack)"

definition flaggedStarted :: Lifecycle where
  "flaggedStarted =
     run [CallConfigure noEnv, CallStart None,
          InitializeSettles 0 asyncFinalizeInstance, StartResumes,
          InitializeSettles 1 lifecycleInstance, StartResumes,
          InitializeSettles 2 asyncFinalizeInstance, StartResumes]
       (complete flaggedStack)"

definition flaggedStopping :: Lifecycle where
  "flaggedStopping = run [CallStop, FinalizeSettles 2 (FinValue None)] flaggedStarted"

text \<open>
  A module \<open>a\<close>, and after it a module \<open>1\<close> that takes the instance of \<open>a\<close>.
  \<open>lifecycle.start(); lifecycle.stop();\<close> and then \<open>start\<close> and the block of \<open>stop\<close>
  are given a chance to resume.
\<close>

definition indexDepStack :: ModStackBuilder where
  "indexDepStack = add ''1'' plainMod [(''a'', ''a'')] (add ''a'' plainMod [] modstack)"

definition indexDepStopped :: Lifecycle where
  "indexDepStopped =
     run [CallConfigure noEnv, CallStart None, CallStop, StartResumes, StopResumes]
       (complete indexDepStack)"

text \<open>
  The module \<open>lifecycle\<close> alone: \<open>lifecycle.start(); lifecycle.stop();\<close>, then the promise
  of \<open>initialize\<close> resolves with the instance and \<open>start\<close> resumes.
\<close>

definition interruptedEngine :: Lifecycle where
  "interruptedEngine =
     run [CallConfigure noEnv, CallStart None, CallStop,
          InitializeSettles 0 lifecycleInstance, StartResumes]
       (complete modstack)"

text \<open>
  A module \<open>z\<close> whose instance is \<open>0\<close>: \<open>stop()\<close> is called while its \<open>initialize\<close> is
  awaited; then that promise resolves and \<open>start\<close> resumes.
\<close>

definition zeroStack :: ModStackBuilder where
  "zeroStack = add ''z'' plainMod [] modstack"

definition zeroAwaited :: Lifecycle where
  "zeroAwaited =
     run [CallConfigure noEnv, CallStart None, InitializeSettles 0 lifecycleInstance, StartResumes]
       (complete zeroStack)"

definition zeroInterrupted :: Lifecycle where
  "zeroInterrupted = run [CallStop, InitializeSettles 1 zeroInstance, StartResumes] zeroAwaited"

definition zeroFailed :: Lifecycle where
  "zeroFailed = run [InitializeSettles 1 zeroInstance, StartResumes] zeroAwaited"


section \<open>Basic facts\<close>

lemma modGuides_updGuide [simp]:
  "modGuides (updGuide i f s) = (modGuides s)[i := f (modGuides s ! i)]"
  by (simp add: updGuide_def)

lemma trace_updGuide [simp]: "trace (updGuide i f s) = trace s"
  by (simp add: updGuide_def)

lemma phase_updGuide [simp]: "phase (updGuide i f s) = phase s"
  by (simp add: updGuide_def)

lemma interruptStart_updGuide [simp]: "interruptStart (updGuide i f s) = interruptStart s"
  by (simp add: updGuide_def)

lemma stopped_updGuide [simp]: "stopped (updGuide i f s) = stopped s"
  by (simp add: updGuide_def)

lemma startPromise_updGuide [simp]: "startPromise (updGuide i f s) = startPromise s"
  by (simp add: updGuide_def)

lemma stopTask_updGuide [simp]: "stopTask (updGuide i f s) = stopTask s"
  by (simp add: updGuide_def)

lemma modGuides_observe [simp]: "modGuides (observe e s) = modGuides s"
  by (simp add: observe_def)

lemma trace_observe [simp]: "trace (observe e s) = trace s @ [e]"
  by (simp add: observe_def)

lemma phase_observe [simp]: "phase (observe e s) = phase s"
  by (simp add: observe_def)

lemma interruptStart_observe [simp]: "interruptStart (observe e s) = interruptStart s"
  by (simp add: observe_def)

lemma stopped_observe [simp]: "stopped (observe e s) = stopped s"
  by (simp add: observe_def)

lemma startPromise_observe [simp]: "startPromise (observe e s) = startPromise s"
  by (simp add: observe_def)

lemma stopTask_observe [simp]: "stopTask (observe e s) = stopTask s"
  by (simp add: observe_def)

lemma changePhase_None [simp]:
  "changePhase p None s = Inr (observe (PhaseChanged p) (s\<lparr>phase := p\<rparr>))"
  by (simp add: changePhase_def)

lemma changePhase_Some:
  "changePhase p (Some ps) s =
     (if phase s \<in> set ps then Inr (observe (PhaseChanged p) (s\<lparr>phase := p\<rparr>))
      else Inl (phaseError p (phase s)))"
  by (simp add: changePhase_def)

lemma errorCode_phaseError [simp]: "errorCode (phaseError p q) = ''phase.incorrect''"
  by (simp add: phaseError_def)

lemma nth_update_other: "i \<notin> set is \<Longrightarrow> x \<in> set is \<Longrightarrow> gs[i := g] ! x = gs ! x"
  by (metis nth_list_update_neq)

lemma map_nth_guides: "map (\<lambda>i. f (gs ! i)) [0..<length gs] = map f gs"
  by (rule nth_equalityI) simp_all

section \<open>Phase errors\<close>

text \<open>
  C9, as amended. An operation that is illegal in the current phase fails with the
  \<open>ModstackError\<close> of code \<open>phase.incorrect\<close> and leaves the state, so the phase, as
  it was: \<open>configure()\<close> outside \<open>loading\<close> and \<open>stop()\<close> outside \<open>ready\<close>,
  \<open>starting_failed\<close>, \<open>starting\<close>, \<open>stopping\<close> and \<open>stopped\<close> throw it to the
  caller, and so does \<open>changePhase\<close> from a phase that is not allowed; \<open>start()\<close>
  outside \<open>configured\<close> throws nothing and returns a promise rejected with that error.
\<close>

theorem phase_errors:
  "(phase s \<noteq> P_loading \<longrightarrow>
      lifecycle_configure envVars s = (Inl (phaseError P_configuring (phase s)), s))
   \<and> (phase s \<notin> {P_ready, P_starting_failed, P_starting, P_stopping, P_stopped} \<longrightarrow>
      lifecycle_stop s = (Some (phaseError P_stopping (phase s)), s))
   \<and> (phase s \<noteq> P_configured \<longrightarrow>
      lifecycle_start options s = (Inr (StartRejected (phaseError P_starting (phase s))), s))
   \<and> (phase s \<notin> set allowed \<longrightarrow>
      changePhase newPhase (Some allowed) s = Inl (phaseError newPhase (phase s)))
   \<and> errorCode (phaseError newPhase (phase s)) = ''phase.incorrect''"
  by (simp add: lifecycle_configure_def lifecycle_stop_def lifecycle_start_def changePhase_Some)

theorem phase_errors_witness:
  "phase cfgFailed \<noteq> P_loading
   \<and> phase cfgFailed \<notin> {P_ready, P_starting_failed, P_starting, P_stopping, P_stopped}
   \<and> phase cfgFailed \<noteq> P_configured
   \<and> phase cfgFailed \<notin> set [P_loading]
   \<and> fst (lifecycle_configure noEnv cfgFailed) = Inl (phaseError P_configuring P_configuration_failed)
   \<and> fst (lifecycle_stop cfgFailed) = Some (phaseError P_stopping P_configuration_failed)
   \<and> fst (lifecycle_start None cfgFailed)
       = Inr (StartRejected (phaseError P_starting P_configuration_failed))
   \<and> phase (snd (lifecycle_configure noEnv cfgFailed)) = P_configuration_failed
   \<and> phase (snd (lifecycle_stop cfgFailed)) = P_configuration_failed
   \<and> phase (snd (lifecycle_start None cfgFailed)) = P_configuration_failed
   \<and> changePhase P_configuring (Some [P_loading]) cfgFailed
       = Inl (phaseError P_configuring P_configuration_failed)"
proof -
  have ph: "phase cfgFailed = P_configuration_failed"
    by code_simp
  show ?thesis
    using phase_errors [of cfgFailed noEnv None "[P_loading]" P_configuring]
    by (simp add: ph)
qed

text \<open>
  C9 as stated fails for \<open>start()\<close>: called in phase \<open>loading\<close> it throws nothing to its
  caller; the error is the rejection of the promise it returns.
\<close>

theorem start_in_loading_does_not_throw:
  "phase (complete modstack) = P_loading
   \<and> \<not> isl (fst (lifecycle_start None (complete modstack)))
   \<and> fst (lifecycle_start None (complete modstack))
       = Inr (StartRejected (phaseError P_starting P_loading))"
  by code_simp

section \<open>Configuration\<close>

text \<open>
  C6 does not hold of the code at two inputs. Registered in the order \<open>lifecycle\<close>,
  \<open>a\<close>, \<open>1\<close>, the guides reach the engine in the order \<open>1\<close>, \<open>lifecycle\<close>, \<open>a\<close>,
  and \<open>configure({})\<close> calls \<open>configure\<close> of \<open>1\<close> before that of \<open>a\<close>. When the
  \<open>configure\<close> of the module \<open>a\<close> throws a \<open>Symbol\<close>, \<open>configure({})\<close> of the engine
  throws a \<open>TypeError\<close>: the module \<open>b\<close> registered after it is not configured, and the
  phase stays \<open>configuring\<close>.
\<close>

theorem configure_order_and_abort:
  "map fst (made indexNamedStack) = [''lifecycle'', ''a'', ''1'']
   \<and> map name (modGuides (complete indexNamedStack)) = [''1'', ''lifecycle'', ''a'']
   \<and> fst (lifecycle_configure noEnv (complete indexNamedStack)) = Inr Ok
   \<and> trace (snd (lifecycle_configure noEnv (complete indexNamedStack)))
       = [PhaseChanged P_configuring, ConfigureCalled 0, ConfigureCalled 2, PhaseChanged P_configured]
   \<and> map name (modGuides (complete symbolStack)) = [''lifecycle'', ''a'', ''b'']
   \<and> fst (lifecycle_configure noEnv (complete symbolStack)) = Inl TypeError
   \<and> phase (snd (lifecycle_configure noEnv (complete symbolStack))) = P_configuring
   \<and> map state (modGuides (snd (lifecycle_configure noEnv (complete symbolStack))))
       = [M_configured, M_configuration_failed, M_added]
   \<and> trace (snd (lifecycle_configure noEnv (complete symbolStack)))
       = [PhaseChanged P_configuring, ConfigureCalled 1]"
  by code_simp

section \<open>Status\<close>

text \<open>
  C8 does not hold of the code: in phase \<open>ready\<close>, where the claim has
  \<open>inStoppablePhase\<close> true, the object that \<open>status()\<close> returns has the fields \<open>phase\<close>
  and \<open>modules\<close> and no field \<open>inStoppablePhase\<close>.
\<close>

theorem status_lacks_inStoppablePhase:
  "phase readyEngine = P_ready
   \<and> lifecycle_status (\<lambda>i. Returns JUndefined) readyEngine
       = Inr (JObj [(''phase'', JStr ''ready''),
                    (''modules'', JObj [(''lifecycle'',
                       JObj [(''state'', JStr ''initialized''), (''status'', JObj [])])])])
   \<and> (case lifecycle_status (\<lambda>i. Returns JUndefined) readyEngine of
         Inl e \<Rightarrow> False
       | Inr v \<Rightarrow> getField v ''inStoppablePhase'' = None)"
  by code_simp

section \<open>Frames of the elementary updates\<close>

lemma nth_update_self:
  "gs[i := f (gs ! i)] ! k = (if k = i \<and> i < length gs then f (gs ! i) else gs ! k)"
  by (cases "i < length gs") (auto simp: nth_list_update list_update_beyond)

lemma isStartResolved_simps [simp]:
  "\<not> isStartResolved StartNotCalled" "\<not> isStartResolved (StartAwaiting j opts)"
  "isStartResolved (StartResolved r)" "\<not> isStartResolved (StartRejected e)"
  by (simp_all add: isStartResolved_def)

lemma isStartPending_simps [simp]:
  "\<not> isStartPending StartNotCalled" "isStartPending (StartAwaiting j opts)"
  "\<not> isStartPending (StartResolved r)" "isStartPending (StartRejected e)"
  by (simp_all add: isStartPending_def)

lemma isAwaitingInit_simps [simp]:
  "\<not> isAwaitingInit InitNotCalled" "isAwaitingInit (InitAwaiting t)"
  "\<not> isAwaitingInit (InitReturned v)" "\<not> isAwaitingInit (InitThrew e)"
  by (simp_all add: isAwaitingInit_def)

lemma guideCount_updGuide [simp]: "guideCount (updGuide i f s) = guideCount s"
  by (simp add: guideCount_def)

lemma guideCount_observe [simp]: "guideCount (observe e s) = guideCount s"
  by (simp add: guideCount_def)

lemma guideAt_updGuide:
  "guideAt (updGuide i f s) k = (if k = i \<and> i < guideCount s then f (guideAt s i) else guideAt s k)"
  by (simp add: guideAt_def guideCount_def nth_update_self)

lemma guideAt_observe [simp]: "guideAt (observe e s) k = guideAt s k"
  by (simp add: guideAt_def)

lemma guideCount_fields [simp]:
  "guideCount (s\<lparr>phase := p\<rparr>) = guideCount s"
  "guideCount (s\<lparr>interruptStart := i\<rparr>) = guideCount s"
  "guideCount (s\<lparr>stopped := b\<rparr>) = guideCount s"
  "guideCount (s\<lparr>startPromise := sp\<rparr>) = guideCount s"
  "guideCount (s\<lparr>stopTask := st\<rparr>) = guideCount s"
  "guideCount (s\<lparr>trace := tr\<rparr>) = guideCount s"
  by (simp_all add: guideCount_def)

lemma guideAt_fields [simp]:
  "guideAt (s\<lparr>phase := p\<rparr>) k = guideAt s k"
  "guideAt (s\<lparr>interruptStart := i\<rparr>) k = guideAt s k"
  "guideAt (s\<lparr>stopped := b\<rparr>) k = guideAt s k"
  "guideAt (s\<lparr>startPromise := sp\<rparr>) k = guideAt s k"
  "guideAt (s\<lparr>stopTask := st\<rparr>) k = guideAt s k"
  "guideAt (s\<lparr>trace := tr\<rparr>) k = guideAt s k"
  by (simp_all add: guideAt_def)

lemma finPromiseOf_alt: "finPromiseOf s k = (if k < guideCount s then finalizationPromise (guideAt s k) else None)"
  by (simp add: finPromiseOf_def guideAt_def guideCount_def)

lemma finPromiseOf_fields [simp]:
  "finPromiseOf (s\<lparr>phase := p\<rparr>) k = finPromiseOf s k"
  "finPromiseOf (s\<lparr>interruptStart := i\<rparr>) k = finPromiseOf s k"
  "finPromiseOf (s\<lparr>stopped := b\<rparr>) k = finPromiseOf s k"
  "finPromiseOf (s\<lparr>startPromise := sp\<rparr>) k = finPromiseOf s k"
  "finPromiseOf (s\<lparr>stopTask := st\<rparr>) k = finPromiseOf s k"
  "finPromiseOf (s\<lparr>trace := tr\<rparr>) k = finPromiseOf s k"
  "finPromiseOf (observe e s) k = finPromiseOf s k"
  by (simp_all add: finPromiseOf_def)

lemma finPromiseOf_updGuide:
  "finPromiseOf (updGuide i f s) k =
     (if k = i \<and> i < guideCount s then finalizationPromise (f (guideAt s i)) else finPromiseOf s k)"
  by (simp add: finPromiseOf_alt guideAt_updGuide)

lemma finalizeCalls_fields [simp]:
  "finalizeCalls (s\<lparr>phase := p\<rparr>) k = finalizeCalls s k"
  "finalizeCalls (s\<lparr>interruptStart := x\<rparr>) k = finalizeCalls s k"
  "finalizeCalls (s\<lparr>stopped := b\<rparr>) k = finalizeCalls s k"
  "finalizeCalls (s\<lparr>startPromise := sp\<rparr>) k = finalizeCalls s k"
  "finalizeCalls (s\<lparr>stopTask := st\<rparr>) k = finalizeCalls s k"
  "finalizeCalls (updGuide i f s) k = finalizeCalls s k"
  by (simp_all add: finalizeCalls_def)

lemma finalizeCalls_observe:
  "finalizeCalls (observe e s) k = finalizeCalls s k + (if e = FinalizeCalled k then 1 else 0)"
  by (simp add: finalizeCalls_def)

lemma inPass_simps [simp]:
  "\<not> inPass StopNotCalled" "\<not> inPass StopAwaitInterrupt" "inPass (StopAwaitAll todo fps)"
  "\<not> inPass StopFinished" "inPass (StopRejected e)"
  by (simp_all add: inPass_def)

section \<open>Steps that leave the guides alone\<close>

lemma inv_ctl_cong:
  assumes "phase s' = phase s" "startPromise s' = startPromise s" "stopTask s' = stopTask s"
    "interruptStart s' = interruptStart s"
    "PhaseChanged P_ready \<in> set (trace s') \<longleftrightarrow> PhaseChanged P_ready \<in> set (trace s)"
    "PhaseChanged P_starting_failed \<in> set (trace s') \<longleftrightarrow> PhaseChanged P_starting_failed \<in> set (trace s)"
  shows "inv_ctl s' = inv_ctl s"
  unfolding inv_ctl_def assms ..

lemma inv_init_cong:
  assumes "guideCount s' = guideCount s" "startPromise s' = startPromise s"
    "\<And>k. initPromise (guideAt s' k) = initPromise (guideAt s k)"
    "\<And>k. inst (guideAt s' k) = inst (guideAt s k)"
  shows "inv_init s' = inv_init s"
  unfolding inv_init_def loopAt_def returnedTruthy_def assms ..

lemma inv_deps_cong:
  assumes "guideCount s' = guideCount s"
    "\<And>k. initPromise (guideAt s' k) = initPromise (guideAt s k)"
    "\<And>k. inst (guideAt s' k) = inst (guideAt s k)"
    "\<And>k. dependents (guideAt s' k) = dependents (guideAt s k)"
  shows "inv_deps s' = inv_deps s"
  unfolding inv_deps_def assms ..

lemma sameGuides:
  assumes "modGuides s' = modGuides s"
  shows "guideCount s' = guideCount s" "guideAt s' k = guideAt s k"
    "finPromiseOf s' k = finPromiseOf s k"
  using assms by (simp_all add: guideCount_def guideAt_def finPromiseOf_def)

lemma inv_init_same:
  assumes "modGuides s' = modGuides s" "startPromise s' = startPromise s"
  shows "inv_init s' = inv_init s"
  by (rule inv_init_cong) (simp_all add: sameGuides[OF assms(1)] assms(2))

lemma inv_deps_same:
  assumes "modGuides s' = modGuides s"
  shows "inv_deps s' = inv_deps s"
  by (rule inv_deps_cong) (simp_all add: sameGuides[OF assms])

lemma finalizeCalls_append:
  assumes "trace s' = trace s @ xs" "\<And>k. FinalizeCalled k \<notin> set xs"
  shows "finalizeCalls s' k = finalizeCalls s k"
proof -
  have "count_list xs (FinalizeCalled k) = 0"
    using assms(2) by (simp add: count_list_0_iff)
  then show ?thesis by (simp add: finalizeCalls_def assms(1))
qed

lemma finished_fields:
  "modGuides (finished ok s) = modGuides s"
  "phase (finished ok s) = (if ok then P_stopped else P_stopping_failed)"
  "interruptStart (finished ok s) = interruptStart s"
  "startPromise (finished ok s) = startPromise s"
  "stopTask (finished ok s) = StopFinished"
  "stopped (finished ok s) = (case stopped s of None \<Rightarrow> Some ok | Some x \<Rightarrow> Some x)"
  "trace (finished ok s)
     = trace s @ [PhaseChanged (if ok then P_stopped else P_stopping_failed), StoppedResolved ok]"
  by (simp_all add: finished_def)

lemma stop_resume_cases:
  "stop_resume s =
     (case stopTask s of
        StopAwaitInterrupt \<Rightarrow>
          if interruptStart s = Some True then stop_loop (reversedModGuides s) [] s else s
      | StopAwaitAll todo fps \<Rightarrow>
          (case firstRejection (map (entryPromise s) fps) of
             Some e \<Rightarrow> s\<lparr>stopTask := StopRejected e\<rparr>
           | None \<Rightarrow>
               if list_all isFulfilled (map (entryPromise s) fps) then
                 (case todo of
                    i # rest \<Rightarrow>
                      stop_loop rest [Resolved (everyOk (map (entryPromise s) fps)), OfGuide i]
                        (guide_finalize i s)
                  | [] \<Rightarrow> finished (everyOk (map (entryPromise s) fps)) s)
               else s)
      | _ \<Rightarrow> s)"
  by (simp add: stop_resume_def finished_def Let_def split: StopTask.splits list.splits option.splits)

section \<open>Calling \<open>stop\<close>\<close>

lemma lifecycle_stop_cases:
  "lifecycle_stop s =
     (if phase s = P_stopping \<or> phase s = P_stopped then (None, s)
      else if phase s = P_starting then (None, interruptRequested s)
      else if phase s = P_ready \<or> phase s = P_starting_failed then
        (None, if interruptStart s \<noteq> None then (stoppingBegun s)\<lparr>stopTask := StopAwaitInterrupt\<rparr>
               else stop_loop (reversedModGuides (stoppingBegun s)) [] (stoppingBegun s))
      else (Some (phaseError P_stopping (phase s)), s))"
  by (auto simp: lifecycle_stop_def changePhase_Some interruptRequested_def stoppingBegun_def Let_def)

lemma interruptRequested_fields:
  "modGuides (interruptRequested s) = modGuides s"
  "phase (interruptRequested s) = P_stopping"
  "interruptStart (interruptRequested s) = Some False"
  "startPromise (interruptRequested s) = startPromise s"
  "stopTask (interruptRequested s) = StopAwaitInterrupt"
  "stopped (interruptRequested s) = stopped s"
  "trace (interruptRequested s) = trace s @ [PhaseChanged P_stopping]"
  by (simp_all add: interruptRequested_def)

lemma stoppingBegun_fields:
  "modGuides (stoppingBegun s) = modGuides s"
  "phase (stoppingBegun s) = P_stopping"
  "interruptStart (stoppingBegun s) = interruptStart s"
  "startPromise (stoppingBegun s) = startPromise s"
  "stopTask (stoppingBegun s) = stopTask s"
  "stopped (stoppingBegun s) = stopped s"
  "trace (stoppingBegun s) = trace s @ [PhaseChanged P_stopping]"
  by (simp_all add: stoppingBegun_def)

lemma pending_not_resolved: "isStartPending p \<Longrightarrow> \<not> isStartResolved p"
  by (cases p) simp_all

lemma inv_ctl_starting:
  assumes "inv_ctl s" "phase s = P_starting"
  shows "isStartPending (startPromise s)" "stopTask s = StopNotCalled" "interruptStart s = None"
  using assms unfolding inv_ctl_def by blast+

lemma inv_ctl_settled:
  assumes "inv_ctl s" "phase s = P_ready \<or> phase s = P_starting_failed"
  shows "isStartResolved (startPromise s)" "stopTask s = StopNotCalled" "interruptStart s = None"
  using assms unfolding inv_ctl_def by blast+

lemma inv_ctl_pending_trace:
  assumes "inv_ctl s" "isStartPending (startPromise s)"
  shows "PhaseChanged P_ready \<notin> set (trace s)" "PhaseChanged P_starting_failed \<notin> set (trace s)"
  using assms pending_not_resolved[OF assms(2)] unfolding inv_ctl_def by blast+

lemma inv_ctl_interrupt:
  assumes "phase s = P_stopping" "stopTask s = StopAwaitInterrupt" "interruptStart s = Some False"
    "isStartPending (startPromise s)"
    "PhaseChanged P_ready \<notin> set (trace s)" "PhaseChanged P_starting_failed \<notin> set (trace s)"
  shows "inv_ctl s"
  unfolding inv_ctl_def using assms pending_not_resolved[OF assms(4)] by simp

section \<open>What finalization leaves alone\<close>

lemma keepsStart_D:
  assumes "keepsStart s s'"
  shows "guideCount s' = guideCount s" "phase s' = phase s" "startPromise s' = startPromise s"
    "interruptStart s' = interruptStart s"
    "\<And>k. initPromise (guideAt s' k) = initPromise (guideAt s k)"
    "\<And>k. inst (guideAt s' k) = inst (guideAt s k)"
    "\<And>k. dependents (guideAt s' k) = dependents (guideAt s k)"
    "\<And>k. modDesc (guideAt s' k) = modDesc (guideAt s k)"
    "\<And>p. PhaseChanged p \<in> set (trace s') \<longleftrightarrow> PhaseChanged p \<in> set (trace s)"
  using assms unfolding keepsStart_def by blast+

lemma keepsStart_refl: "keepsStart s s"
  by (simp add: keepsStart_def)

lemma keepsStart_trans:
  assumes "keepsStart s s1" "keepsStart s1 s2"
  shows "keepsStart s s2"
  unfolding keepsStart_def
  by (simp add: keepsStart_D[OF assms(1)] keepsStart_D[OF assms(2)])

lemma keepsStart_updGuide:
  assumes "\<And>g. initPromise (f g) = initPromise g" "\<And>g. inst (f g) = inst g"
    "\<And>g. dependents (f g) = dependents g" "\<And>g. modDesc (f g) = modDesc g"
  shows "keepsStart s (updGuide i f s)"
  unfolding keepsStart_def by (simp add: guideAt_updGuide assms)

lemma keepsStart_observe:
  assumes "\<And>p. e \<noteq> PhaseChanged p"
  shows "keepsStart s (observe e s)"
  unfolding keepsStart_def using assms by auto

lemma keepsStart_stopTask: "keepsStart s (s\<lparr>stopTask := t\<rparr>)"
  by (simp add: keepsStart_def)

lemma keepsStart_finalization_finished: "keepsStart s (finalization_finished i b s)"
  unfolding finalization_finished_def by (rule keepsStart_updGuide) simp_all

lemma keepsStart_set_promise:
  "keepsStart s (updGuide i (\<lambda>g. g\<lparr>finalizationPromise := p\<rparr>) s)"
  "keepsStart s (updGuide i (\<lambda>g. g\<lparr>state := st\<rparr>) s)"
  by (rule keepsStart_updGuide; simp)+

lemma keepsStart_called:
  "keepsStart s (observe (FinalizeCalled i) (updGuide i (\<lambda>g. g\<lparr>finalizationPromise := p\<rparr>) s))"
  by (rule keepsStart_trans[OF keepsStart_set_promise(1) keepsStart_observe]) simp

lemma keepsStart_finalizing: "keepsStart s (finalizing i s)"
proof -
  let ?s1 = "updGuide i (\<lambda>g. g\<lparr>state := M_finalizing\<rparr>) s"
  have a: "keepsStart s ?s1" by (rule keepsStart_set_promise)
  have "keepsStart ?s1 (finalizing i s)"
    unfolding finalizing_def Let_def
    by (simp add: keepsStart_finalization_finished keepsStart_called
          split: option.splits FinalizeFn.splits)
  then show ?thesis using keepsStart_trans[OF a] by blast
qed

lemma keepsStart_guide_finalize: "keepsStart s (guide_finalize i s)"
proof -
  let ?s1 = "updGuide i (\<lambda>x. x\<lparr>state := M_awaiting_finalization\<rparr>) s"
  have a: "keepsStart s ?s1" by (rule keepsStart_set_promise)
  have b: "keepsStart s (updGuide i (\<lambda>x. x\<lparr>finalizationPromise := p\<rparr>) ?s1)" for p
    by (rule keepsStart_trans[OF a keepsStart_set_promise(1)])
  show ?thesis
    unfolding guide_finalize_def Let_def
    by (simp add: keepsStart_refl keepsStart_set_promise keepsStart_finalizing b
          split: option.splits)
qed

lemma stopTask_finalization_finished [simp]:
  "stopTask (finalization_finished i b s) = stopTask s"
  by (simp add: finalization_finished_def)

lemma stopTask_finalizing [simp]: "stopTask (finalizing i s) = stopTask s"
  by (simp add: finalizing_def Let_def split: option.splits FinalizeFn.splits)

lemma stopTask_guide_finalize [simp]: "stopTask (guide_finalize i s) = stopTask s"
  by (simp add: guide_finalize_def Let_def split: option.splits)

lemma stop_loop_keeps:
  "keepsStart s (stop_loop todo fps s) \<and> inPass (stopTask (stop_loop todo fps s))"
proof (induction todo arbitrary: fps s)
  case Nil
  then show ?case by (simp add: keepsStart_stopTask)
next
  case (Cons i rest)
  show ?case
  proof (cases "isOrdered (modGuides s ! i)")
    case True
    then show ?thesis by (simp add: keepsStart_stopTask)
  next
    case False
    note IH = Cons.IH[where fps = "fps @ [OfGuide i]" and s = "guide_finalize i s"]
    have "keepsStart s (stop_loop rest (fps @ [OfGuide i]) (guide_finalize i s))"
      using keepsStart_trans[OF keepsStart_guide_finalize] IH by blast
    then show ?thesis using False IH by simp
  qed
qed

lemma keepsStart_inv_init: "keepsStart s s' \<Longrightarrow> inv_init s' = inv_init s"
  by (rule inv_init_cong) (simp_all add: keepsStart_D)

lemma keepsStart_inv_deps: "keepsStart s s' \<Longrightarrow> inv_deps s' = inv_deps s"
  by (rule inv_deps_cong) (simp_all add: keepsStart_D)

lemma keepsStart_inv_ctl:
  "keepsStart s s' \<Longrightarrow> stopTask s' = stopTask s \<Longrightarrow> inv_ctl s' = inv_ctl s"
  by (rule inv_ctl_cong) (simp_all add: keepsStart_D)

lemma keepsStart_inv:
  assumes "keepsStart s s'" "stopTask s' = stopTask s" "inv s"
  shows "inv s'"
  using assms(3) keepsStart_inv_ctl[OF assms(1,2)] keepsStart_inv_init[OF assms(1)]
    keepsStart_inv_deps[OF assms(1)]
  unfolding inv_def by simp

section \<open>The promises of one guide's finalization settle\<close>

lemma inv_finalize_callback_settled: "inv s \<Longrightarrow> inv (finalize_callback_settled i r s)"
proof -
  assume a: "inv s"
  have "keepsStart s (finalize_callback_settled i r s)
      \<and> stopTask (finalize_callback_settled i r s) = stopTask s"
    unfolding finalize_callback_settled_def
    by (simp add: keepsStart_refl keepsStart_finalization_finished
          split: option.splits FinPromise.splits)
  then show ?thesis using keepsStart_inv a by blast
qed

lemma inv_finalize_dependents_settled: "inv s \<Longrightarrow> inv (finalize_dependents_settled i s)"
proof -
  assume a: "inv s"
  have "keepsStart s (finalize_dependents_settled i s)
      \<and> stopTask (finalize_dependents_settled i s) = stopTask s"
    unfolding finalize_dependents_settled_def
    by (simp add: keepsStart_refl keepsStart_finalizing keepsStart_set_promise
          split: option.splits FinPromise.splits)
  then show ?thesis using keepsStart_inv a by blast
qed

section \<open>The block of \<open>stop\<close>\<close>

lemma inPass_D:
  "inPass t \<Longrightarrow> t \<noteq> StopNotCalled \<and> t \<noteq> StopAwaitInterrupt \<and> t \<noteq> StopFinished"
  by (cases t) simp_all

lemma inv_ctl_inPassI:
  assumes "phase s = P_stopping" "inPass (stopTask s)" "isStartResolved (startPromise s)"
    "interruptStart s \<noteq> Some False"
    "interruptStart s = Some True \<longrightarrow> startPromise s = StartResolved interrupted"
    "PhaseChanged P_ready \<in> set (trace s) \<or> PhaseChanged P_starting_failed \<in> set (trace s)
       \<longrightarrow> interruptStart s = None"
  shows "inv_ctl s"
  unfolding inv_ctl_def using assms inPass_D[OF assms(2)] by simp

lemma inv_ctl_inPassD:
  assumes "inv_ctl s" "inPass (stopTask s)"
  shows "phase s = P_stopping" "isStartResolved (startPromise s)"
    "interruptStart s \<noteq> Some False"
    "interruptStart s = Some True \<longrightarrow> startPromise s = StartResolved interrupted"
    "PhaseChanged P_ready \<in> set (trace s) \<or> PhaseChanged P_starting_failed \<in> set (trace s)
       \<longrightarrow> interruptStart s = None"
  using assms unfolding inv_ctl_def by blast+

lemma inv_ctl_finishedI:
  assumes "phase s = P_stopped \<or> phase s = P_stopping_failed" "stopTask s = StopFinished"
    "isStartResolved (startPromise s)" "interruptStart s \<noteq> Some False"
    "interruptStart s = Some True \<longrightarrow> startPromise s = StartResolved interrupted"
    "PhaseChanged P_ready \<in> set (trace s) \<or> PhaseChanged P_starting_failed \<in> set (trace s)
       \<longrightarrow> interruptStart s = None"
  shows "inv_ctl s"
  unfolding inv_ctl_def using assms by auto

text \<open>The pass begins, or goes on, from a state where \<open>start\<close> has returned.\<close>

lemma inv_pass_from:
  assumes k: "keepsStart s s0" and i: "inv_init s" and d: "inv_deps s"
    and c: "phase s = P_stopping" "isStartResolved (startPromise s)"
      "interruptStart s \<noteq> Some False"
      "interruptStart s = Some True \<longrightarrow> startPromise s = StartResolved interrupted"
      "PhaseChanged P_ready \<in> set (trace s) \<or> PhaseChanged P_starting_failed \<in> set (trace s)
         \<longrightarrow> interruptStart s = None"
  shows "inv (stop_loop todo fps s0)"
proof -
  let ?s' = "stop_loop todo fps s0"
  note sl = stop_loop_keeps[of s0 todo fps]
  have k': "keepsStart s ?s'" using keepsStart_trans[OF k] sl by blast
  note D = keepsStart_D[OF k']
  have "inv_ctl ?s'"
    by (rule inv_ctl_inPassI) (use sl c in \<open>simp_all add: D\<close>)
  then show ?thesis
    unfolding inv_def using i d keepsStart_inv_init[OF k'] keepsStart_inv_deps[OF k'] by simp
qed

lemma inv_stop_resume:
  assumes inv: "inv s"
  shows "inv (stop_resume s)"
proof -
  have pieces: "inv_ctl s" "inv_init s" "inv_deps s"
    using inv unfolding inv_def by blast+
  show ?thesis
  proof (cases "stopTask s")
    case StopAwaitInterrupt
    show ?thesis
    proof (cases "interruptStart s = Some True")
      case False
      then show ?thesis using inv StopAwaitInterrupt by (simp add: stop_resume_cases)
    next
      case True
      have c: "phase s = P_stopping" "startPromise s = StartResolved interrupted"
        "PhaseChanged P_ready \<in> set (trace s) \<or> PhaseChanged P_starting_failed \<in> set (trace s)
           \<longrightarrow> interruptStart s = None"
        using pieces(1) StopAwaitInterrupt True unfolding inv_ctl_def by blast+
      have "inv (stop_loop (reversedModGuides s) [] s)"
        by (rule inv_pass_from[OF keepsStart_refl pieces(2,3)]) (use c True in simp_all)
      then show ?thesis using StopAwaitInterrupt True by (simp add: stop_resume_cases)
    qed
  next
    case (StopAwaitAll todo fps)
    then have ip: "inPass (stopTask s)" by simp
    note c = inv_ctl_inPassD[OF pieces(1) ip]
    let ?ps = "map (entryPromise s) fps"
    show ?thesis
    proof (cases "firstRejection ?ps")
      case (Some e)
      let ?s' = "s\<lparr>stopTask := StopRejected e\<rparr>"
      have e: "stop_resume s = ?s'" using StopAwaitAll Some by (simp add: stop_resume_cases)
      have "inv_ctl ?s'"
        by (rule inv_ctl_inPassI) (use c in simp_all)
      moreover have "inv_init ?s'" using pieces(2) inv_init_same[of ?s' s] by simp
      moreover have "inv_deps ?s'" using pieces(3) inv_deps_same[of ?s' s] by simp
      ultimately show ?thesis unfolding e inv_def by blast
    next
      case None
      show ?thesis
      proof (cases "list_all isFulfilled ?ps")
        case False
        then show ?thesis using inv StopAwaitAll None by (simp add: stop_resume_cases)
      next
        case True
        show ?thesis
        proof (cases todo)
          case (Cons i rest)
          have e: "stop_resume s
              = stop_loop rest [Resolved (everyOk ?ps), OfGuide i] (guide_finalize i s)"
            using StopAwaitAll None True Cons by (simp add: stop_resume_cases)
          show ?thesis
            unfolding e
            by (rule inv_pass_from[OF keepsStart_guide_finalize pieces(2,3) c])
        next
          case Nil
          let ?s' = "finished (everyOk ?ps) s"
          note F = finished_fields[of "everyOk ?ps" s]
          have e: "stop_resume s = ?s'"
            using StopAwaitAll None True Nil by (simp add: stop_resume_cases)
          have "inv_ctl ?s'"
            by (rule inv_ctl_finishedI) (use c in \<open>auto simp: F\<close>)
          moreover have "inv_init ?s'" using pieces(2) inv_init_same[OF F(1) F(4)] by simp
          moreover have "inv_deps ?s'" using pieces(3) inv_deps_same[OF F(1)] by simp
          ultimately show ?thesis unfolding e inv_def by blast
        qed
      qed
    qed
  qed (use inv in \<open>simp_all add: stop_resume_cases\<close>)
qed

lemma inv_interruptRequested:
  assumes inv: "inv s" and ph: "phase s = P_starting"
  shows "inv (interruptRequested s)"
proof -
  let ?s' = "interruptRequested s"
  note F = interruptRequested_fields[of s]
  have pieces: "inv_ctl s" "inv_init s" "inv_deps s"
    using inv unfolding inv_def by blast+
  note ctl = inv_ctl_starting[OF pieces(1) ph]
  note notr = inv_ctl_pending_trace[OF pieces(1) ctl(1)]
  have c: "inv_ctl ?s'"
    by (rule inv_ctl_interrupt) (use ctl(1) notr in \<open>simp_all add: F\<close>)
  have i: "inv_init ?s'" using pieces(2) inv_init_same[OF F(1) F(4)] by simp
  have d: "inv_deps ?s'" using pieces(3) inv_deps_same[OF F(1)] by simp
  show ?thesis
    unfolding inv_def using c i d by blast
qed

lemma inv_lifecycle_stop:
  assumes inv: "inv s"
  shows "inv (snd (lifecycle_stop s))"
proof -
  have pieces: "inv_ctl s" "inv_init s" "inv_deps s"
    using inv unfolding inv_def by blast+
  consider (noop) "phase s = P_stopping \<or> phase s = P_stopped"
    | (starting) "phase s = P_starting"
    | (go) "phase s = P_ready \<or> phase s = P_starting_failed"
    | (bad) "phase s \<notin> {P_stopping, P_stopped, P_starting, P_ready, P_starting_failed}"
    by auto
  then show ?thesis
  proof cases
    case noop
    then show ?thesis using inv by (auto simp: lifecycle_stop_cases)
  next
    case starting
    then show ?thesis using inv_interruptRequested[OF inv] by (simp add: lifecycle_stop_cases)
  next
    case bad
    then show ?thesis using inv by (auto simp: lifecycle_stop_cases)
  next
    case go
    let ?s2 = "stoppingBegun s"
    note F = stoppingBegun_fields[of s]
    note ctl = inv_ctl_settled[OF pieces(1) go]
    have e: "snd (lifecycle_stop s) = stop_loop (reversedModGuides ?s2) [] ?s2"
      using go ctl(3) by (auto simp: lifecycle_stop_cases)
    have i: "inv_init ?s2" using pieces(2) inv_init_same[OF F(1) F(4)] by simp
    have d: "inv_deps ?s2" using pieces(3) inv_deps_same[OF F(1)] by simp
    show ?thesis
      unfolding e
      by (rule inv_pass_from[OF keepsStart_refl i d]) (use ctl in \<open>simp_all add: F\<close>)
  qed
qed


section \<open>How far \<open>start\<close> has come\<close>

lemma coalesce_truthy: "truthy v \<Longrightarrow> coalesce v d = v"
  by (cases v) simp_all

lemma coalesce_JNull_truthy: "truthy (coalesce v JNull) \<Longrightarrow> coalesce v JNull = v"
  by (cases v) simp_all

lemma returnedTruthy_cong:
  "inst g' = inst g \<Longrightarrow> initPromise g' = initPromise g \<Longrightarrow> returnedTruthy g' = returnedTruthy g"
  by (simp add: returnedTruthy_def)

lemma returnedTruthyD:
  assumes "returnedTruthy g"
  shows "initPromise g = InitReturned (inst g)" "truthy (inst g)" "inst g \<noteq> JUndefined"
    "initPromise g \<noteq> InitNotCalled" "\<not> isAwaitingInit (initPromise g)"
    "coalesce (inst g) JNull = inst g"
  using assms by (auto simp: returnedTruthy_def coalesce_truthy)

lemma inv_init_loopAt:
  assumes "inv_init s" "startPromise s = StartAwaiting i opts"
  shows "loopAt s i"
proof -
  have a: "i < guideCount s" "initPromise (guideAt s i) \<noteq> InitNotCalled"
    "\<forall>k<guideCount s. i < k \<longrightarrow> initPromise (guideAt s k) = InitNotCalled"
    using assms unfolding inv_init_def by blast+
  have each: "(initPromise (guideAt s k) \<noteq> InitNotCalled \<longrightarrow> (\<forall>j<k. returnedTruthy (guideAt s j)))
      \<and> (case initPromise (guideAt s k) of
              InitReturned v \<Rightarrow> v = coalesce (inst (guideAt s k)) JNull
            | _ \<Rightarrow> inst (guideAt s k) = JUndefined)" if "k < guideCount s" for k
    using assms(1) that unfolding inv_init_def by blast
  have later: "initPromise (guideAt s k) = InitNotCalled \<and> inst (guideAt s k) = JUndefined"
    if "k < guideCount s" "i < k" for k
  proof -
    have nc: "initPromise (guideAt s k) = InitNotCalled" using a(3) that by blast
    then show ?thesis using each[OF that(1)] by simp
  qed
  show ?thesis
    unfolding loopAt_def using a(1,2) each[OF a(1)] later by blast
qed

lemma inv_init_awaiting_only:
  assumes "inv_init s" "startPromise s = StartAwaiting i opts" "k < guideCount s"
    "isAwaitingInit (initPromise (guideAt s k))"
  shows "k = i"
proof -
  have "\<exists>opts'. startPromise s = StartAwaiting k opts'"
    using assms(1,3,4) unfolding inv_init_def by blast
  then show ?thesis using assms(2) by auto
qed

text \<open>The three clauses for one guide, from the position of the loop.\<close>

lemma loopAt_each:
  assumes l: "loopAt s i" and k: "k < guideCount s"
    and aw: "isAwaitingInit (initPromise (guideAt s i)) \<longrightarrow> (\<exists>opts. startPromise s = StartAwaiting i opts)"
  shows "(initPromise (guideAt s k) \<noteq> InitNotCalled \<longrightarrow> (\<forall>j<k. returnedTruthy (guideAt s j)))
      \<and> (isAwaitingInit (initPromise (guideAt s k)) \<longrightarrow>
              (\<exists>opts. startPromise s = StartAwaiting k opts))
      \<and> (case initPromise (guideAt s k) of
              InitReturned v \<Rightarrow> v = coalesce (inst (guideAt s k)) JNull
            | _ \<Rightarrow> inst (guideAt s k) = JUndefined)"
proof -
  have L: "i < guideCount s" "\<And>j. j < i \<Longrightarrow> returnedTruthy (guideAt s j)"
    "initPromise (guideAt s i) \<noteq> InitNotCalled"
    "case initPromise (guideAt s i) of
           InitReturned v \<Rightarrow> v = coalesce (inst (guideAt s i)) JNull
         | _ \<Rightarrow> inst (guideAt s i) = JUndefined"
    "\<And>k. k < guideCount s \<Longrightarrow> i < k \<Longrightarrow>
           initPromise (guideAt s k) = InitNotCalled \<and> inst (guideAt s k) = JUndefined"
    using l unfolding loopAt_def by blast+
  consider (before) "k < i" | (at) "k = i" | (after) "i < k" by linarith
  then show ?thesis
  proof cases
    case before
    note R = returnedTruthyD[OF L(2)[OF before]]
    have "\<forall>j<k. returnedTruthy (guideAt s j)" using L(2) before by simp
    then show ?thesis using R by simp
  next
    case at
    show ?thesis unfolding at using L(2,4) aw by simp
  next
    case after
    then show ?thesis using L(5)[OF k after] by simp
  qed
qed

lemma inv_init_awaitingI:
  assumes l: "loopAt s i" and sp: "startPromise s = StartAwaiting i opts"
  shows "inv_init s"
proof -
  have aw: "isAwaitingInit (initPromise (guideAt s i)) \<longrightarrow> (\<exists>opts. startPromise s = StartAwaiting i opts)"
    using sp by simp
  have L: "i < guideCount s" "initPromise (guideAt s i) \<noteq> InitNotCalled"
    "\<forall>k<guideCount s. i < k \<longrightarrow> initPromise (guideAt s k) = InitNotCalled"
    using l unfolding loopAt_def by blast+
  show ?thesis
    unfolding inv_init_def
  proof (intro conjI)
    show "\<forall>k<guideCount s.
        (initPromise (guideAt s k) \<noteq> InitNotCalled \<longrightarrow> (\<forall>j<k. returnedTruthy (guideAt s j)))
        \<and> (isAwaitingInit (initPromise (guideAt s k)) \<longrightarrow>
              (\<exists>opts. startPromise s = StartAwaiting k opts))
        \<and> (case initPromise (guideAt s k) of
              InitReturned v \<Rightarrow> v = coalesce (inst (guideAt s k)) JNull
            | _ \<Rightarrow> inst (guideAt s k) = JUndefined)"
      using loopAt_each[OF l _ aw] by blast
    show "startPromise s = StartNotCalled \<longrightarrow>
          (\<forall>k<guideCount s. initPromise (guideAt s k) = InitNotCalled)"
      using sp by simp
    show "\<forall>j opts. startPromise s = StartAwaiting j opts \<longrightarrow>
          j < guideCount s \<and> initPromise (guideAt s j) \<noteq> InitNotCalled
          \<and> (\<forall>k<guideCount s. j < k \<longrightarrow> initPromise (guideAt s k) = InitNotCalled)"
      using sp L by simp
    show "\<forall>r. startPromise s = StartResolved r \<longrightarrow>
          (started r \<longrightarrow> (\<forall>k<guideCount s. returnedTruthy (guideAt s k)))
          \<and> (\<not> started r \<longrightarrow> (\<exists>k. loopAt s k))"
      using sp by simp
  qed
qed

text \<open>The loop has stopped at position \<open>i\<close>: \<open>start\<close> has returned without an instance of that guide, or its promise is rejected.\<close>

lemma inv_init_endedI:
  assumes l: "loopAt s i" and na: "\<not> isAwaitingInit (initPromise (guideAt s i))"
    and sp: "startPromise s = StartRejected e \<or> (\<exists>r. startPromise s = StartResolved r \<and> \<not> started r)"
  shows "inv_init s"
proof -
  have aw: "isAwaitingInit (initPromise (guideAt s i)) \<longrightarrow> (\<exists>opts. startPromise s = StartAwaiting i opts)"
    using na by simp
  have L: "i < guideCount s"
    "\<forall>k<guideCount s. i < k \<longrightarrow> initPromise (guideAt s k) = InitNotCalled"
    using l unfolding loopAt_def by blast+
  show ?thesis
    unfolding inv_init_def
  proof (intro conjI)
    show "\<forall>k<guideCount s.
        (initPromise (guideAt s k) \<noteq> InitNotCalled \<longrightarrow> (\<forall>j<k. returnedTruthy (guideAt s j)))
        \<and> (isAwaitingInit (initPromise (guideAt s k)) \<longrightarrow>
              (\<exists>opts. startPromise s = StartAwaiting k opts))
        \<and> (case initPromise (guideAt s k) of
              InitReturned v \<Rightarrow> v = coalesce (inst (guideAt s k)) JNull
            | _ \<Rightarrow> inst (guideAt s k) = JUndefined)"
      using loopAt_each[OF l _ aw] by blast
    show "startPromise s = StartNotCalled \<longrightarrow>
          (\<forall>k<guideCount s. initPromise (guideAt s k) = InitNotCalled)"
      using sp by auto
    show "\<forall>j opts. startPromise s = StartAwaiting j opts \<longrightarrow>
          j < guideCount s \<and> initPromise (guideAt s j) \<noteq> InitNotCalled
          \<and> (\<forall>k<guideCount s. j < k \<longrightarrow> initPromise (guideAt s k) = InitNotCalled)"
      using sp by auto
    show "\<forall>r. startPromise s = StartResolved r \<longrightarrow>
          (started r \<longrightarrow> (\<forall>k<guideCount s. returnedTruthy (guideAt s k)))
          \<and> (\<not> started r \<longrightarrow> (\<exists>k. loopAt s k))"
      using sp l by auto
  qed
qed

text \<open>Every guide has returned its instance, and \<open>start\<close> has returned.\<close>

lemma inv_init_startedI:
  assumes all: "\<forall>k<guideCount s. returnedTruthy (guideAt s k)"
    and sp: "startPromise s = StartResolved r" and st: "started r"
  shows "inv_init s"
proof -
  have R: "initPromise (guideAt s k) = InitReturned (inst (guideAt s k))"
    "coalesce (inst (guideAt s k)) JNull = inst (guideAt s k)" if "k < guideCount s" for k
    using returnedTruthyD[of "guideAt s k"] all that by simp_all
  show ?thesis
    unfolding inv_init_def
  proof (intro conjI)
    show "\<forall>k<guideCount s.
        (initPromise (guideAt s k) \<noteq> InitNotCalled \<longrightarrow> (\<forall>j<k. returnedTruthy (guideAt s j)))
        \<and> (isAwaitingInit (initPromise (guideAt s k)) \<longrightarrow>
              (\<exists>opts. startPromise s = StartAwaiting k opts))
        \<and> (case initPromise (guideAt s k) of
              InitReturned v \<Rightarrow> v = coalesce (inst (guideAt s k)) JNull
            | _ \<Rightarrow> inst (guideAt s k) = JUndefined)"
      using all R by simp
    show "startPromise s = StartNotCalled \<longrightarrow>
          (\<forall>k<guideCount s. initPromise (guideAt s k) = InitNotCalled)"
      using sp by simp
    show "\<forall>j opts. startPromise s = StartAwaiting j opts \<longrightarrow>
          j < guideCount s \<and> initPromise (guideAt s j) \<noteq> InitNotCalled
          \<and> (\<forall>k<guideCount s. j < k \<longrightarrow> initPromise (guideAt s k) = InitNotCalled)"
      using sp by simp
    show "\<forall>r. startPromise s = StartResolved r \<longrightarrow>
          (started r \<longrightarrow> (\<forall>k<guideCount s. returnedTruthy (guideAt s k)))
          \<and> (\<not> started r \<longrightarrow> (\<exists>k. loopAt s k))"
      using sp st all by simp
  qed
qed


section \<open>The promise of a descriptor's \<open>initialize\<close> settles\<close>

lemma initialize_settled_cases:
  "initialize_settled i r s =
     (if i < guideCount s then
        (case initPromise (guideAt s i) of
           InitAwaiting threw \<Rightarrow> updGuide i (settledGuide (if threw then InitRejected else r)) s
         | _ \<Rightarrow> s)
      else s)"
  unfolding initialize_settled_def guideCount_def guideAt_def settledGuide_def
  by (auto split: InitPromise.splits InitResult.splits)

lemma settledGuide_fields:
  "initPromise (settledGuide r g) = InitReturned (coalesce (inst (settledGuide r g)) JNull)"
  "dependents (settledGuide r g) = dependents g"
  "finalizationPromise (settledGuide r g) = finalizationPromise g"
  "modDesc (settledGuide r g) = modDesc g"
  by (simp_all add: settledGuide_def split: InitResult.splits)

lemma inv_prestop:
  assumes "inv_ctl s" "isStartPending (startPromise s) \<or> startPromise s = StartNotCalled"
  shows "stopTask s = StopNotCalled \<or> stopTask s = StopAwaitInterrupt"
proof -
  have nr: "\<not> isStartResolved (startPromise s)"
    using assms(2) by (cases "startPromise s") simp_all
  have "inPass (stopTask s) \<or> stopTask s = StopFinished \<longrightarrow> isStartResolved (startPromise s)"
    using assms(1) unfolding inv_ctl_def by blast
  then have a: "\<not> inPass (stopTask s)" "stopTask s \<noteq> StopFinished"
    using nr by blast+
  show ?thesis
    using a by (cases "stopTask s") simp_all
qed

lemma inv_deps_none:
  assumes "inv_deps s" "k < guideCount s" "\<not> truthy (inst (guideAt s k))"
  shows "dependents (guideAt s k) = []"
proof (rule ccontr)
  assume "dependents (guideAt s k) \<noteq> []"
  then obtain d where "d \<in> set (dependents (guideAt s k))"
    by (cases "dependents (guideAt s k)") auto
  then show False using assms unfolding inv_deps_def by blast
qed

lemma inv_initialize_settled:
  assumes inv: "inv s"
  shows "inv (initialize_settled i r s)"
proof (cases "i < guideCount s \<and> isAwaitingInit (initPromise (guideAt s i))")
  case False
  then have "initialize_settled i r s = s"
    by (auto simp: initialize_settled_cases split: InitPromise.splits)
  then show ?thesis using inv by simp
next
  case True
  then obtain threw where aw: "initPromise (guideAt s i) = InitAwaiting threw"
    by (cases "initPromise (guideAt s i)") simp_all
  define r' where "r' = (if threw then InitRejected else r)"
  let ?s' = "updGuide i (settledGuide r') s"
  have e: "initialize_settled i r s = ?s'"
    using True aw by (simp add: initialize_settled_cases r'_def)
  have i: "i < guideCount s" using True by simp
  have pieces: "inv_ctl s" "inv_init s" "inv_deps s"
    using inv unfolding inv_def by blast+
  obtain opts where sp: "startPromise s = StartAwaiting i opts"
    using pieces(2) True unfolding inv_init_def by blast
  note l = inv_init_loopAt[OF pieces(2) sp]
  have L: "\<And>j. j < i \<Longrightarrow> returnedTruthy (guideAt s j)"
    "\<And>k. k < guideCount s \<Longrightarrow> i < k \<Longrightarrow>
           initPromise (guideAt s k) = InitNotCalled \<and> inst (guideAt s k) = JUndefined"
    using l unfolding loopAt_def by blast+
  have undef: "inst (guideAt s i) = JUndefined"
    using l aw unfolding loopAt_def by simp
  have other: "guideAt ?s' k = guideAt s k" if "k \<noteq> i" for k
    using that by (simp add: guideAt_updGuide)
  have self: "guideAt ?s' i = settledGuide r' (guideAt s i)"
    using i by (simp add: guideAt_updGuide)
  note S = settledGuide_fields[of r' "guideAt s i"]
  have c: "inv_ctl ?s'"
    using pieces(1) inv_ctl_cong[of ?s' s] by simp
  have l': "loopAt ?s' i"
    unfolding loopAt_def
  proof (intro conjI)
    show "i < guideCount ?s'" using i by simp
    show "\<forall>j<i. returnedTruthy (guideAt ?s' j)" using L(1) other by simp
    show "initPromise (guideAt ?s' i) \<noteq> InitNotCalled" unfolding self S(1) by simp
    show "case initPromise (guideAt ?s' i) of
           InitReturned v \<Rightarrow> v = coalesce (inst (guideAt ?s' i)) JNull
         | _ \<Rightarrow> inst (guideAt ?s' i) = JUndefined"
      unfolding self S(1) by simp
    show "\<forall>k<guideCount ?s'. i < k \<longrightarrow>
           initPromise (guideAt ?s' k) = InitNotCalled \<and> inst (guideAt ?s' k) = JUndefined"
      using L(2) other by simp
  qed
  have ii: "inv_init ?s'"
    using inv_init_awaitingI[OF l'] sp by simp
  have nodeps: "dependents (guideAt s i) = []"
    using inv_deps_none[OF pieces(3) i] undef by simp
  have dep: "dependents (guideAt ?s' k) = dependents (guideAt s k)" for k
    using other[of k] self S(2) by (cases "k = i") simp_all
  have d: "inv_deps ?s'"
    unfolding inv_deps_def
  proof (intro allI impI ballI)
    fix k d assume k: "k < guideCount ?s'" and d: "d \<in> set (dependents (guideAt ?s' k))"
    have k': "k < guideCount s" using k by simp
    have d': "d \<in> set (dependents (guideAt s k))" using d dep by simp
    have ki: "k \<noteq> i" using d' nodeps by auto
    have old: "k < d" "d < guideCount s" "truthy (inst (guideAt s k))"
      "initPromise (guideAt s d) \<noteq> InitNotCalled"
      using pieces(3) k' d' unfolding inv_deps_def by blast+
    have "initPromise (guideAt ?s' d) \<noteq> InitNotCalled"
    proof (cases "d = i")
      case True
      show ?thesis unfolding True self S(1) by simp
    next
      case False
      then show ?thesis using old(4) other by simp
    qed
    then show "k < d \<and> d < guideCount ?s' \<and> truthy (inst (guideAt ?s' k))
        \<and> initPromise (guideAt ?s' d) \<noteq> InitNotCalled"
      using old other[OF ki] by simp
  qed
  show ?thesis
    unfolding e inv_def using c ii d by blast
qed

section \<open>Asking for the instances of the dependencies\<close>

lemma regFrame_D:
  assumes "regFrame i s s'"
  shows "guideCount s' = guideCount s" "phase s' = phase s" "startPromise s' = startPromise s"
    "stopTask s' = stopTask s" "interruptStart s' = interruptStart s"
    "stopped s' = stopped s" "trace s' = trace s"
    "\<And>k. initPromise (guideAt s' k) = initPromise (guideAt s k)"
    "\<And>k. inst (guideAt s' k) = inst (guideAt s k)"
    "\<And>k. state (guideAt s' k) = state (guideAt s k)"
    "\<And>k. finalizationPromise (guideAt s' k) = finalizationPromise (guideAt s k)"
    "\<And>k. modDesc (guideAt s' k) = modDesc (guideAt s k)"
    "\<And>k. set (dependents (guideAt s' k)) \<subseteq> insert i (set (dependents (guideAt s k)))"
    "\<And>k. dependents (guideAt s' k) \<noteq> dependents (guideAt s k) \<Longrightarrow>
              k < guideCount s \<and> inst (guideAt s k) \<noteq> JUndefined"
  using assms unfolding regFrame_def by blast+

lemma regFrame_refl: "regFrame i s s"
  by (auto simp: regFrame_def)

lemma regFrame_trans:
  assumes a: "regFrame i s s1" and b: "regFrame i s1 s2"
  shows "regFrame i s s2"
proof -
  note A = regFrame_D[OF a]
  note B = regFrame_D[OF b]
  have sub: "set (dependents (guideAt s2 k)) \<subseteq> insert i (set (dependents (guideAt s k)))" for k
    using A(13)[of k] B(13)[of k] by blast
  have ch: "k < guideCount s \<and> inst (guideAt s k) \<noteq> JUndefined"
    if "dependents (guideAt s2 k) \<noteq> dependents (guideAt s k)" for k
  proof (cases "dependents (guideAt s1 k) = dependents (guideAt s k)")
    case True
    then have "dependents (guideAt s2 k) \<noteq> dependents (guideAt s1 k)" using that by simp
    then show ?thesis using B(14)[of k] by (simp add: A(1) A(9))
  next
    case False
    then show ?thesis using A(14)[of k] by simp
  qed
  show ?thesis
    unfolding regFrame_def
  proof (intro conjI)
    show "\<forall>k. set (dependents (guideAt s2 k)) \<subseteq> insert i (set (dependents (guideAt s k)))"
      using sub by blast
    show "\<forall>k. dependents (guideAt s2 k) \<noteq> dependents (guideAt s k) \<longrightarrow>
              k < guideCount s \<and> inst (guideAt s k) \<noteq> JUndefined"
      using ch by blast
  qed (simp_all add: A B)
qed

lemma guide_getInstance_cases:
  "guide_getInstance d i s =
     (if d < guideCount s then
        (if inst (guideAt s d) = JUndefined then
           Inl (ModstackError ''uninitialized_instance''
                  ''Uninitialized instance cannot be retrieved.'')
         else Inr (inst (guideAt s d),
                updGuide d (\<lambda>g. g\<lparr>dependents := dependents g @ [i]\<rparr>) s))
      else Inl TypeError)"
  by (simp add: guide_getInstance_def guideCount_def guideAt_def)

lemma regFrame_register:
  assumes "d < guideCount s" "inst (guideAt s d) \<noteq> JUndefined"
  shows "regFrame i s (updGuide d (\<lambda>g. g\<lparr>dependents := dependents g @ [i]\<rparr>) s)"
  unfolding regFrame_def using assms by (auto simp: guideAt_updGuide)

lemma selectDeps_frame: "regFrame i s (snd (selectDeps i ds s))"
proof (induction ds arbitrary: s)
  case Nil
  then show ?case by (simp add: regFrame_refl)
next
  case (Cons r ds)
  show ?case
  proof (cases "\<exists>d. r = Listed d \<and> d < guideCount s \<and> inst (guideAt s d) \<noteq> JUndefined")
    case False
    then have "snd (selectDeps i (r # ds) s) = s"
      by (cases r) (auto simp: dep_getInstance_def guide_getInstance_cases)
    then show ?thesis by (simp add: regFrame_refl)
  next
    case True
    then obtain d where d: "r = Listed d" "d < guideCount s" "inst (guideAt s d) \<noteq> JUndefined"
      by blast
    let ?s1 = "updGuide d (\<lambda>g. g\<lparr>dependents := dependents g @ [i]\<rparr>) s"
    have e: "snd (selectDeps i (r # ds) s) = snd (selectDeps i ds ?s1)"
      using d by (simp add: dep_getInstance_def guide_getInstance_cases)
    have r: "regFrame i s ?s1" using d by (intro regFrame_register) simp_all
    show ?thesis unfolding e by (rule regFrame_trans[OF r Cons.IH])
  qed
qed


section \<open>\<open>initialize\<close> of a guide, up to its \<open>await\<close>\<close>

lemma initFrame_D:
  assumes "initFrame i s s'"
  shows "guideCount s' = guideCount s" "startPromise s' = startPromise s" "stopped s' = stopped s"
    "\<And>k. inst (guideAt s' k) = inst (guideAt s k)"
    "\<And>k. finalizationPromise (guideAt s' k) = finalizationPromise (guideAt s k)"
    "\<And>k. modDesc (guideAt s' k) = modDesc (guideAt s k)"
    "\<And>k. k \<noteq> i \<Longrightarrow> initPromise (guideAt s' k) = initPromise (guideAt s k)"
    "\<And>k. k \<noteq> i \<Longrightarrow> state (guideAt s' k) = state (guideAt s k)"
    "state (guideAt s' i) = state (guideAt s i) \<or> state (guideAt s' i) = M_initializing"
    "initPromise (guideAt s' i) = InitReturned (coalesce (inst (guideAt s i)) JNull)
          \<or> (inst (guideAt s i) = JUndefined
               \<and> ((\<exists>e. initPromise (guideAt s' i) = InitThrew e)
                    \<or> initPromise (guideAt s' i) = InitAwaiting False))"
    "\<And>k. set (dependents (guideAt s' k)) \<subseteq> insert i (set (dependents (guideAt s k)))"
    "\<And>k. dependents (guideAt s' k) \<noteq> dependents (guideAt s k) \<Longrightarrow>
              k < guideCount s \<and> inst (guideAt s k) \<noteq> JUndefined"
    "(phase s' = phase s \<and> stopTask s' = stopTask s \<and> interruptStart s' = interruptStart s)
          \<or> (phase s' = P_stopping \<and> stopTask s' = StopAwaitInterrupt
               \<and> interruptStart s' = Some False)"
    "\<exists>xs. trace s' = trace s @ xs \<and> set xs \<subseteq> {InitializeCalled i, PhaseChanged P_stopping}"
  using assms unfolding initFrame_def by blast+

text \<open>The guide has no configuration: \<open>initialize\<close> returns what \<open>inst\<close> holds.\<close>

lemma initFrame_unconfigured:
  assumes "i < guideCount s"
  shows "initFrame i s
           (updGuide i (\<lambda>x. x\<lparr>initPromise := InitReturned (coalesce (inst (guideAt s i)) JNull)\<rparr>) s)"
  unfolding initFrame_def using assms by (auto simp: guideAt_updGuide)

text \<open>After the calls of \<open>getInstance\<close>: one of them threw, or the descriptor's \<open>initialize\<close> is called, and it may call \<open>stop\<close>.\<close>

lemma initFrame_selected:
  assumes i: "i < guideCount s" and u: "cfg (guideAt s i) \<noteq> JUndefined \<longrightarrow> inst (guideAt s i) = JUndefined"
    and r: "regFrame i (updGuide i (\<lambda>x. x\<lparr>state := M_initializing\<rparr>) s) s2"
    and p: "p = InitThrew e \<and> s3 = s2
            \<or> p = InitAwaiting False
               \<and> (s3 = observe (InitializeCalled i) s2
                    \<or> s3 = interruptRequested (observe (InitializeCalled i) s2))"
    and c: "cfg (guideAt s i) \<noteq> JUndefined"
  shows "initFrame i s (updGuide i (\<lambda>x. x\<lparr>initPromise := p\<rparr>) s3)"
proof -
  let ?s1 = "updGuide i (\<lambda>x. x\<lparr>state := M_initializing\<rparr>) s"
  let ?s' = "updGuide i (\<lambda>x. x\<lparr>initPromise := p\<rparr>) s3"
  note R = regFrame_D[OF r]
  have undef: "inst (guideAt s i) = JUndefined" using u c by simp
  have n2: "guideCount s2 = guideCount s" using R(1) by simp
  have n3: "guideCount s3 = guideCount s"
    using p n2 by (auto simp: interruptRequested_def)
  have g3: "guideAt s3 k = guideAt s2 k" for k
    using p by (auto simp: interruptRequested_def)
  have f3: "startPromise s3 = startPromise s" "stopped s3 = stopped s"
    using p R(3,6) by (auto simp: interruptRequested_def)
  have g1: "inst (guideAt ?s1 k) = inst (guideAt s k)"
    "finalizationPromise (guideAt ?s1 k) = finalizationPromise (guideAt s k)"
    "modDesc (guideAt ?s1 k) = modDesc (guideAt s k)"
    "initPromise (guideAt ?s1 k) = initPromise (guideAt s k)"
    "dependents (guideAt ?s1 k) = dependents (guideAt s k)"
    "k \<noteq> i \<Longrightarrow> state (guideAt ?s1 k) = state (guideAt s k)"
    "state (guideAt ?s1 i) = M_initializing" for k
    using i by (simp_all add: guideAt_updGuide)
  have gs': "guideAt ?s' k = (if k = i then (guideAt s2 i)\<lparr>initPromise := p\<rparr> else guideAt s2 k)" for k
    using i by (simp add: guideAt_updGuide n3 g3)
  have ctl: "(phase ?s' = phase s \<and> stopTask ?s' = stopTask s \<and> interruptStart ?s' = interruptStart s)
          \<or> (phase ?s' = P_stopping \<and> stopTask ?s' = StopAwaitInterrupt
               \<and> interruptStart ?s' = Some False)"
    using p R(2,4,5) by (auto simp: interruptRequested_fields)
  have tr: "\<exists>xs. trace ?s' = trace s @ xs \<and> set xs \<subseteq> {InitializeCalled i, PhaseChanged P_stopping}"
    using p R(7) by (auto simp: interruptRequested_fields)
  have ip: "initPromise (guideAt ?s' i) = InitReturned (coalesce (inst (guideAt s i)) JNull)
          \<or> (inst (guideAt s i) = JUndefined
               \<and> ((\<exists>e. initPromise (guideAt ?s' i) = InitThrew e)
                    \<or> initPromise (guideAt ?s' i) = InitAwaiting False))"
    using p undef by (auto simp: gs')
  show ?thesis
    unfolding initFrame_def
  proof (intro conjI)
    show "guideCount ?s' = guideCount s" using n3 by simp
    show "startPromise ?s' = startPromise s" using f3 by simp
    show "stopped ?s' = stopped s" using f3 by simp
    show "\<forall>k. inst (guideAt ?s' k) = inst (guideAt s k)
              \<and> finalizationPromise (guideAt ?s' k) = finalizationPromise (guideAt s k)
              \<and> modDesc (guideAt ?s' k) = modDesc (guideAt s k)"
      by (simp add: gs' R g1)
    show "\<forall>k. k \<noteq> i \<longrightarrow> initPromise (guideAt ?s' k) = initPromise (guideAt s k)
              \<and> state (guideAt ?s' k) = state (guideAt s k)"
      by (simp add: gs' R g1)
    show "state (guideAt ?s' i) = state (guideAt s i) \<or> state (guideAt ?s' i) = M_initializing"
      by (simp add: gs' R g1)
    show "\<forall>k. set (dependents (guideAt ?s' k)) \<subseteq> insert i (set (dependents (guideAt s k)))"
      using R(13) by (simp add: gs' g1)
    show "\<forall>k. dependents (guideAt ?s' k) \<noteq> dependents (guideAt s k) \<longrightarrow>
              k < guideCount s \<and> inst (guideAt s k) \<noteq> JUndefined"
      using R(14) by (simp add: gs' g1)
  qed (rule ip ctl tr)+
qed

lemma guide_initialize_frame:
  assumes i: "i < guideCount s" and ph: "phase s = P_starting"
    and u: "cfg (guideAt s i) \<noteq> JUndefined \<longrightarrow> inst (guideAt s i) = JUndefined"
  shows "initFrame i s (guide_initialize i s)"
proof (cases "cfg (guideAt s i) = JUndefined")
  case True
  then have "guide_initialize i s =
      updGuide i (\<lambda>x. x\<lparr>initPromise := InitReturned (coalesce (inst (guideAt s i)) JNull)\<rparr>) s"
    by (simp add: guide_initialize_def guideAt_def)
  then show ?thesis using initFrame_unconfigured[OF i] by simp
next
  case False
  let ?s1 = "updGuide i (\<lambda>x. x\<lparr>state := M_initializing\<rparr>) s"
  let ?ds = "depMap (guideAt s i)"
  obtain r0 s2 where sd: "selectDeps i ?ds ?s1 = (r0, s2)"
    by (cases "selectDeps i ?ds ?s1")
  let ?s3 = "observe (InitializeCalled i) s2"
  have r: "regFrame i ?s1 s2"
    using selectDeps_frame[of i ?s1 ?ds] sd by simp
  have ph3: "phase ?s3 = P_starting"
    using regFrame_D(2)[OF r] ph by simp
  have stop: "lifecycle_stop ?s3 = (None, interruptRequested ?s3)"
    using ph3 by (simp add: lifecycle_stop_cases)
  obtain p s3 e where e: "guide_initialize i s = updGuide i (\<lambda>x. x\<lparr>initPromise := p\<rparr>) s3"
    and p: "p = InitThrew e \<and> s3 = s2
            \<or> p = InitAwaiting False \<and> (s3 = ?s3 \<or> s3 = interruptRequested ?s3)"
  proof (cases r0)
    case None
    show ?thesis
    proof (cases "mod_initialize_calls_stop (modDesc (guideAt s i))")
      case True
      have "guide_initialize i s
              = updGuide i (\<lambda>x. x\<lparr>initPromise := InitAwaiting False\<rparr>) (interruptRequested ?s3)"
        using False True None stop
        by (simp add: guide_initialize_def guideAt_def[symmetric] Let_def sd del: selectDeps.simps)
      then show ?thesis using that by blast
    next
      case nostop: False
      have "guide_initialize i s = updGuide i (\<lambda>x. x\<lparr>initPromise := InitAwaiting False\<rparr>) ?s3"
        using False nostop None
        by (simp add: guide_initialize_def guideAt_def[symmetric] Let_def sd del: selectDeps.simps)
      then show ?thesis using that by blast
    qed
  next
    case (Some err)
    have "guide_initialize i s = updGuide i (\<lambda>x. x\<lparr>initPromise := InitThrew err\<rparr>) s2"
      using False Some
      by (simp add: guide_initialize_def guideAt_def[symmetric] Let_def sd del: selectDeps.simps)
    then show ?thesis using that by blast
  qed
  show ?thesis
    unfolding e by (rule initFrame_selected[OF i u r p False])
qed



section \<open>The pass of \<open>stop\<close> does not look at the promise of \<open>start\<close>\<close>

lemma updGuide_startPromise:
  "updGuide i f (s\<lparr>startPromise := X\<rparr>) = (updGuide i f s)\<lparr>startPromise := X\<rparr>"
  by (simp add: updGuide_def)

lemma observe_startPromise:
  "observe e (s\<lparr>startPromise := X\<rparr>) = (observe e s)\<lparr>startPromise := X\<rparr>"
  by (simp add: observe_def)

lemma guide_finalized_startPromise:
  "guide_finalized d (s\<lparr>startPromise := X\<rparr>) = guide_finalized d s"
  by (simp add: guide_finalized_def)

lemma finalizedAll_startPromise:
  "finalizedAll ds (s\<lparr>startPromise := X\<rparr>) = finalizedAll ds s"
  by (induction ds) (simp_all add: guide_finalized_startPromise split: sum.splits)

lemma finalization_finished_startPromise:
  "finalization_finished i b (s\<lparr>startPromise := X\<rparr>) = (finalization_finished i b s)\<lparr>startPromise := X\<rparr>"
  by (simp add: finalization_finished_def updGuide_startPromise)

lemma finalizing_startPromise:
  "finalizing i (s\<lparr>startPromise := X\<rparr>) = (finalizing i s)\<lparr>startPromise := X\<rparr>"
  by (simp add: finalizing_def Let_def updGuide_startPromise observe_startPromise
        finalization_finished_startPromise split: option.splits FinalizeFn.splits)

lemma guide_finalize_startPromise:
  "guide_finalize i (s\<lparr>startPromise := X\<rparr>) = (guide_finalize i s)\<lparr>startPromise := X\<rparr>"
  by (simp add: guide_finalize_def Let_def updGuide_startPromise finalizing_startPromise
        finalizedAll_startPromise split: option.splits)

lemma stop_loop_startPromise:
  "stop_loop todo fps (s\<lparr>startPromise := X\<rparr>) = (stop_loop todo fps s)\<lparr>startPromise := X\<rparr>"
proof (induction todo arbitrary: fps s)
  case Nil
  then show ?case by simp
next
  case (Cons i rest)
  show ?case
  proof (cases "isOrdered (modGuides s ! i)")
    case True
    then show ?thesis by simp
  next
    case False
    then show ?thesis
      using Cons.IH[where fps = "fps @ [OfGuide i]" and s = "guide_finalize i s"]
      by (simp add: guide_finalize_startPromise)
  qed
qed



section \<open>The loop of \<open>start\<close>\<close>

lemma inv_ctl_startingI:
  assumes "phase s = P_starting" "isStartPending (startPromise s)" "stopTask s = StopNotCalled"
    "interruptStart s = None"
    "PhaseChanged P_ready \<notin> set (trace s)" "PhaseChanged P_starting_failed \<notin> set (trace s)"
  shows "inv_ctl s"
  unfolding inv_ctl_def using assms pending_not_resolved[OF assms(2)] by simp

lemma inv_ctl_settledI:
  assumes "phase s = P_ready \<or> phase s = P_starting_failed" "isStartResolved (startPromise s)"
    "stopTask s = StopNotCalled" "interruptStart s = None"
  shows "inv_ctl s"
  unfolding inv_ctl_def using assms by auto

lemma inv_ctl_interruptedI:
  assumes "phase s = P_stopping" "stopTask s = StopAwaitInterrupt" "interruptStart s = Some True"
    "startPromise s = StartResolved interrupted"
    "PhaseChanged P_ready \<notin> set (trace s)" "PhaseChanged P_starting_failed \<notin> set (trace s)"
  shows "inv_ctl s"
  unfolding inv_ctl_def using assms by simp

lemma inv_ctl_pendingD:
  assumes c: "inv_ctl s" and p: "isStartPending (startPromise s)"
  shows "(interruptStart s = None \<and> phase s = P_starting \<and> stopTask s = StopNotCalled)
       \<or> (interruptStart s = Some False \<and> phase s = P_stopping \<and> stopTask s = StopAwaitInterrupt)"
proof -
  have nr: "\<not> isStartResolved (startPromise s)" "startPromise s \<noteq> StartNotCalled"
    "\<And>r. startPromise s \<noteq> StartResolved r"
    using p by (cases "startPromise s"; simp)+
  have C: "phase s \<in> {P_loading, P_configuring, P_configured, P_configuration_failed}
        \<longrightarrow> startPromise s = StartNotCalled"
    "phase s = P_starting \<longrightarrow> stopTask s = StopNotCalled \<and> interruptStart s = None"
    "phase s \<in> {P_ready, P_starting_failed} \<longrightarrow> isStartResolved (startPromise s)"
    "phase s = P_stopping \<longrightarrow> stopTask s = StopAwaitInterrupt \<or> inPass (stopTask s)"
    "phase s \<in> {P_stopped, P_stopping_failed} \<longrightarrow> stopTask s = StopFinished"
    "stopTask s = StopAwaitInterrupt \<longrightarrow> interruptStart s \<noteq> None"
    "inPass (stopTask s) \<longrightarrow> isStartResolved (startPromise s)"
    "stopTask s = StopFinished \<longrightarrow> isStartResolved (startPromise s)"
    "interruptStart s = Some True \<longrightarrow> startPromise s = StartResolved interrupted"
    using c unfolding inv_ctl_def by blast+
  show ?thesis
  proof (cases "phase s")
    case P_stopping
    then have a: "stopTask s = StopAwaitInterrupt" using C(4,7) nr(1) by blast
    then have "interruptStart s \<noteq> None" using C(6) by blast
    moreover have "interruptStart s \<noteq> Some True" using C(9) nr(3) by blast
    ultimately have "interruptStart s = Some False" by (cases "interruptStart s") auto
    then show ?thesis using a P_stopping by simp
  qed (use C nr in \<open>simp_all\<close>)
qed

text \<open>The loop arrives at position \<open>i\<close> and calls \<open>initialize\<close> of that guide.\<close>


lemma inv_start_at:
  assumes i: "i < guideCount s"
    and ctl: "phase s = P_starting" "stopTask s = StopNotCalled" "interruptStart s = None"
    and tr: "PhaseChanged P_ready \<notin> set (trace s)" "PhaseChanged P_starting_failed \<notin> set (trace s)"
    and before: "\<forall>j<i. returnedTruthy (guideAt s j)"
    and later: "\<forall>k<guideCount s. i \<le> k \<longrightarrow>
                  initPromise (guideAt s k) = InitNotCalled \<and> inst (guideAt s k) = JUndefined"
    and deps: "inv_deps s"
  shows "inv ((guide_initialize i s)\<lparr>startPromise := StartAwaiting i opts\<rparr>)"
proof -
  let ?s1 = "guide_initialize i s"
  let ?s' = "?s1\<lparr>startPromise := StartAwaiting i opts\<rparr>"
  have undef: "inst (guideAt s i) = JUndefined" using later i by simp
  have fr: "initFrame i s ?s1"
    using guide_initialize_frame[OF i ctl(1)] undef by simp
  note D = initFrame_D[OF fr]
  obtain xs where xs: "trace ?s1 = trace s @ xs" "set xs \<subseteq> {InitializeCalled i, PhaseChanged P_stopping}"
    using D(14) by blast
  have n: "guideCount ?s' = guideCount s" using D(1) by simp
  have g: "guideAt ?s' k = guideAt ?s1 k" for k by simp
  have trace': "e \<in> set (trace ?s') \<Longrightarrow> e \<in> set (trace s) \<or> e = InitializeCalled i
      \<or> e = PhaseChanged P_stopping" for e
    using xs by auto
  have tr': "PhaseChanged P_ready \<notin> set (trace ?s')" "PhaseChanged P_starting_failed \<notin> set (trace ?s')"
    using trace' tr by blast+
  have c: "inv_ctl ?s'"
    using D(13)
  proof
    assume a: "phase ?s1 = phase s \<and> stopTask ?s1 = stopTask s \<and> interruptStart ?s1 = interruptStart s"
    show ?thesis
      by (rule inv_ctl_startingI) (use a ctl tr' in simp_all)
  next
    assume a: "phase ?s1 = P_stopping \<and> stopTask ?s1 = StopAwaitInterrupt
               \<and> interruptStart ?s1 = Some False"
    show ?thesis
      by (rule inv_ctl_interrupt) (use a tr' in simp_all)
  qed
  have ip: "initPromise (guideAt ?s1 i) \<noteq> InitNotCalled" using D(10) by auto
  have l: "loopAt ?s' i"
    unfolding loopAt_def n g
  proof (intro conjI)
    show "i < guideCount s" by (rule i)
    show "\<forall>j<i. returnedTruthy (guideAt ?s1 j)"
    proof (intro allI impI)
      fix j assume j: "j < i"
      then have "j \<noteq> i" by simp
      then have "returnedTruthy (guideAt ?s1 j) = returnedTruthy (guideAt s j)"
        by (intro returnedTruthy_cong D(4) D(7))
      then show "returnedTruthy (guideAt ?s1 j)" using before j by simp
    qed
    show "initPromise (guideAt ?s1 i) \<noteq> InitNotCalled" by (rule ip)
    show "case initPromise (guideAt ?s1 i) of
           InitReturned v \<Rightarrow> v = coalesce (inst (guideAt ?s1 i)) JNull
         | _ \<Rightarrow> inst (guideAt ?s1 i) = JUndefined"
      using D(10) undef by (auto simp: D(4))
    show "\<forall>k<guideCount s. i < k \<longrightarrow>
           initPromise (guideAt ?s1 k) = InitNotCalled \<and> inst (guideAt ?s1 k) = JUndefined"
      using later by (simp add: D(4) D(7))
  qed
  have ii: "inv_init ?s'"
    by (rule inv_init_awaitingI[OF l]) simp
  have d: "inv_deps ?s'"
    unfolding inv_deps_def n g
  proof (intro allI impI ballI)
    fix k d assume k: "k < guideCount s" and d: "d \<in> set (dependents (guideAt ?s1 k))"
    show "k < d \<and> d < guideCount s \<and> truthy (inst (guideAt ?s1 k))
        \<and> initPromise (guideAt ?s1 d) \<noteq> InitNotCalled"
    proof (cases "d \<in> set (dependents (guideAt s k))")
      case True
      have old: "k < d" "d < guideCount s" "truthy (inst (guideAt s k))"
        "initPromise (guideAt s d) \<noteq> InitNotCalled"
        using deps k True unfolding inv_deps_def by blast+
      have "d \<noteq> i" using old(2,4) later i by auto
      then show ?thesis using old by (simp add: D(4) D(7))
    next
      case False
      then have di: "d = i" using d D(11)[of k] by blast
      have "dependents (guideAt ?s1 k) \<noteq> dependents (guideAt s k)" using d False by auto
      then have ne: "inst (guideAt s k) \<noteq> JUndefined" using D(12) by blast
      then have ki: "k < i" using later k by (cases "k < i") auto
      then have "truthy (inst (guideAt s k))" using before returnedTruthyD(2) by blast
      then show ?thesis using ki i ip by (simp add: di D(4))
    qed
  qed
  show ?thesis
    unfolding inv_def using c ii d by blast
qed


section \<open>Calling \<open>start\<close>, and the loop going on\<close>

lemma loopAt_same:
  assumes "modGuides s' = modGuides s"
  shows "loopAt s' i = loopAt s i"
  unfolding loopAt_def by (simp only: sameGuides[OF assms])

lemma lifecycle_start_other:
  "phase s \<noteq> P_configured \<Longrightarrow> snd (lifecycle_start opts s) = s"
  by (simp add: lifecycle_start_def changePhase_def)

lemma lifecycle_start_configured:
  "phase s = P_configured \<Longrightarrow>
   snd (lifecycle_start opts s)
     = start_iterate 0 opts (observe (PhaseChanged P_starting) (s\<lparr>phase := P_starting\<rparr>))"
  by (simp add: lifecycle_start_def changePhase_def Let_def)

lemma startedAll_fields:
  "modGuides (startedAll s) = modGuides s"
  "phase (startedAll s) = P_ready"
  "interruptStart (startedAll s) = interruptStart s"
  "startPromise (startedAll s) = StartResolved \<lparr>started = True, stopping = None\<rparr>"
  "stopTask (startedAll s) = stopTask s"
  "stopped (startedAll s) = stopped s"
  "trace (startedAll s) = trace s @ [PhaseChanged P_ready]"
  by (simp_all add: startedAll_def)

lemma start_iterate_cases:
  "start_iterate i opts s =
     (if i < guideCount s then (guide_initialize i s)\<lparr>startPromise := StartAwaiting i opts\<rparr>
      else startedAll s)"
  by (simp add: start_iterate_def guideCount_def startedAll_def)

lemma inv_startedAll:
  assumes ctl: "stopTask s = StopNotCalled" "interruptStart s = None"
    and all: "\<forall>k<guideCount s. returnedTruthy (guideAt s k)"
    and deps: "inv_deps s"
  shows "inv (startedAll s)"
proof -
  let ?s' = "startedAll s"
  note F = startedAll_fields[of s]
  note G = sameGuides[OF F(1)]
  have c: "inv_ctl ?s'"
    by (rule inv_ctl_settledI) (simp_all add: F ctl)
  have i: "inv_init ?s'"
    by (rule inv_init_startedI[OF _ F(4)]) (use all in \<open>simp_all add: G\<close>)
  have d: "inv_deps ?s'" using deps inv_deps_same[OF F(1)] by simp
  show ?thesis
    unfolding inv_def using c i d by blast
qed

lemma inv_init_notCalledD:
  assumes "inv_init s" "startPromise s = StartNotCalled" "k < guideCount s"
  shows "initPromise (guideAt s k) = InitNotCalled" "inst (guideAt s k) = JUndefined"
proof -
  show nc: "initPromise (guideAt s k) = InitNotCalled"
    using assms unfolding inv_init_def by blast
  have "case initPromise (guideAt s k) of
              InitReturned v \<Rightarrow> v = coalesce (inst (guideAt s k)) JNull
            | _ \<Rightarrow> inst (guideAt s k) = JUndefined"
    using assms(1,3) unfolding inv_init_def by blast
  then show "inst (guideAt s k) = JUndefined" using nc by simp
qed

lemma inv_lifecycle_start:
  assumes inv: "inv s"
  shows "inv (snd (lifecycle_start opts s))"
proof (cases "phase s = P_configured")
  case False
  then show ?thesis using inv by (simp add: lifecycle_start_other)
next
  case True
  let ?s1 = "observe (PhaseChanged P_starting) (s\<lparr>phase := P_starting\<rparr>)"
  have pieces: "inv_ctl s" "inv_init s" "inv_deps s"
    using inv unfolding inv_def by blast+
  have ctl: "startPromise s = StartNotCalled" "stopTask s = StopNotCalled" "interruptStart s = None"
    using pieces(1) True unfolding inv_ctl_def by blast+
  have old: "PhaseChanged P_ready \<notin> set (trace s)" "PhaseChanged P_starting_failed \<notin> set (trace s)"
    using pieces(1) ctl(1) unfolding inv_ctl_def by auto
  have g: "modGuides ?s1 = modGuides s" by simp
  note G = sameGuides[OF g]
  have d1: "inv_deps ?s1" using pieces(3) inv_deps_same[OF g] by simp
  have e: "snd (lifecycle_start opts s) = start_iterate 0 opts ?s1"
    using True by (rule lifecycle_start_configured)
  show ?thesis
  proof (cases "0 < guideCount s")
    case pos: True
    have e2: "start_iterate 0 opts ?s1 = (guide_initialize 0 ?s1)\<lparr>startPromise := StartAwaiting 0 opts\<rparr>"
      using pos by (simp add: start_iterate_cases)
    show ?thesis
      unfolding e e2
    proof (rule inv_start_at[OF _ _ _ _ _ _ _ _ d1])
      show "0 < guideCount ?s1" using pos by simp
      show "phase ?s1 = P_starting" by simp
      show "stopTask ?s1 = StopNotCalled" using ctl(2) by simp
      show "interruptStart ?s1 = None" using ctl(3) by simp
      show "PhaseChanged P_ready \<notin> set (trace ?s1)" using old by simp
      show "PhaseChanged P_starting_failed \<notin> set (trace ?s1)" using old by simp
      show "\<forall>j<0. returnedTruthy (guideAt ?s1 j)" by simp
      show "\<forall>k<guideCount ?s1. 0 \<le> k \<longrightarrow>
                  initPromise (guideAt ?s1 k) = InitNotCalled \<and> inst (guideAt ?s1 k) = JUndefined"
        using inv_init_notCalledD[OF pieces(2) ctl(1)] by simp
    qed
  next
    case zero: False
    have e2: "start_iterate 0 opts ?s1 = startedAll ?s1"
      using zero by (simp add: start_iterate_cases)
    show ?thesis
      unfolding e e2
    proof (rule inv_startedAll[OF _ _ _ d1])
      show "stopTask ?s1 = StopNotCalled" using ctl(2) by simp
      show "interruptStart ?s1 = None" using ctl(3) by simp
      show "\<forall>k<guideCount ?s1. returnedTruthy (guideAt ?s1 k)" using zero by simp
    qed
  qed
qed

section \<open>\<open>start\<close> resumes after \<open>await modGuide.initialize()\<close>\<close>

lemma startFailed_fields:
  "modGuides (startFailed auto s) = modGuides s"
  "phase (startFailed auto s) = P_starting_failed"
  "interruptStart (startFailed auto s) = interruptStart s"
  "startPromise (startFailed auto s) = StartResolved \<lparr>started = False, stopping = Some auto\<rparr>"
  "stopTask (startFailed auto s) = stopTask s"
  "stopped (startFailed auto s) = stopped s"
  "trace (startFailed auto s) = trace s @ [PhaseChanged P_starting_failed]"
  by (simp_all add: startFailed_def)

lemma startInterrupted_fields:
  "modGuides (startInterrupted s) = modGuides s"
  "phase (startInterrupted s) = phase s"
  "interruptStart (startInterrupted s) = Some True"
  "startPromise (startInterrupted s) = StartResolved interrupted"
  "stopTask (startInterrupted s) = stopTask s"
  "stopped (startInterrupted s) = stopped s"
  "trace (startInterrupted s) = trace s"
  by (simp_all add: startInterrupted_def)

lemma stoppingBegun_startPromise:
  "stoppingBegun (s\<lparr>startPromise := X\<rparr>) = (stoppingBegun s)\<lparr>startPromise := X\<rparr>"
  by (simp add: stoppingBegun_def observe_def)

lemma interruptRequested_startPromise:
  "interruptRequested (s\<lparr>startPromise := X\<rparr>) = (interruptRequested s)\<lparr>startPromise := X\<rparr>"
  by (simp add: interruptRequested_def observe_def)

lemma stopTask_startPromise:
  "s\<lparr>startPromise := X, stopTask := t\<rparr> = s\<lparr>stopTask := t, startPromise := X\<rparr>"
  by simp

lemma reversedModGuides_startPromise:
  "reversedModGuides (s\<lparr>startPromise := X\<rparr>) = reversedModGuides s"
  by (simp add: reversedModGuides_def)

lemma lifecycle_stop_startPromise:
  "snd (lifecycle_stop (s\<lparr>startPromise := X\<rparr>)) = (snd (lifecycle_stop s))\<lparr>startPromise := X\<rparr>"
  "fst (lifecycle_stop (s\<lparr>startPromise := X\<rparr>)) = fst (lifecycle_stop s)"
proof -
  have r: "reversedModGuides ((stoppingBegun s)\<lparr>startPromise := X\<rparr>) = reversedModGuides (stoppingBegun s)"
    by (rule reversedModGuides_startPromise)
  show "snd (lifecycle_stop (s\<lparr>startPromise := X\<rparr>)) = (snd (lifecycle_stop s))\<lparr>startPromise := X\<rparr>"
    unfolding lifecycle_stop_cases stoppingBegun_startPromise interruptRequested_startPromise
      r stop_loop_startPromise stopTask_startPromise
    by simp
  show "fst (lifecycle_stop (s\<lparr>startPromise := X\<rparr>)) = fst (lifecycle_stop s)"
    unfolding lifecycle_stop_cases by simp
qed

lemma start_after_initialize_cases:
  "start_after_initialize i opts v s =
     (if interruptStart s \<noteq> None then startInterrupted s
      else if \<not> truthy v then
        (if wantsAutoStop opts then snd (lifecycle_stop (startFailed True s))
         else startFailed False s)
      else start_iterate (Suc i) opts s)"
proof -
  let ?s1 = "observe (PhaseChanged P_starting_failed) (s\<lparr>phase := P_starting_failed\<rparr>)"
  have none: "fst (lifecycle_stop ?s1) = None"
    by (simp add: lifecycle_stop_cases)
  have auto: "(case lifecycle_stop ?s1 of
                  (Some e, s2) \<Rightarrow> s2\<lparr>startPromise := StartRejected e\<rparr>
                | (None, s2) \<Rightarrow>
                    s2\<lparr>startPromise := StartResolved \<lparr>started = False, stopping = Some True\<rparr>\<rparr>)
              = snd (lifecycle_stop (startFailed True s))"
    using none unfolding startFailed_def lifecycle_stop_startPromise
    by (cases "lifecycle_stop ?s1") simp
  show ?thesis
    unfolding start_after_initialize_def changePhase_None sum.case auto
    by (simp add: startInterrupted_def interrupted_def startFailed_def)
qed

lemma inv_ended:
  assumes inv: "inv s" and sp: "startPromise s = StartAwaiting i opts"
    and na: "\<not> isAwaitingInit (initPromise (guideAt s i))"
  shows "inv (s\<lparr>startPromise := StartRejected e\<rparr>)"
    and "interruptStart s \<noteq> None \<Longrightarrow> inv (startInterrupted s)"
    and "interruptStart s = None \<Longrightarrow> inv (startFailed auto s)"
proof -
  have pieces: "inv_ctl s" "inv_init s" "inv_deps s"
    using inv unfolding inv_def by blast+
  have pend: "isStartPending (startPromise s)" using sp by simp
  note pd = inv_ctl_pendingD[OF pieces(1) pend]
  note notr = inv_ctl_pending_trace[OF pieces(1) pend]
  note l = inv_init_loopAt[OF pieces(2) sp]
  show "inv (s\<lparr>startPromise := StartRejected e\<rparr>)"
  proof -
    let ?s' = "s\<lparr>startPromise := StartRejected e\<rparr>"
    have g: "modGuides ?s' = modGuides s" by simp
    have c: "inv_ctl ?s'"
      using pd
    proof
      assume "interruptStart s = None \<and> phase s = P_starting \<and> stopTask s = StopNotCalled"
      then show ?thesis using notr by (intro inv_ctl_startingI) simp_all
    next
      assume "interruptStart s = Some False \<and> phase s = P_stopping \<and> stopTask s = StopAwaitInterrupt"
      then show ?thesis using notr by (intro inv_ctl_interrupt) simp_all
    qed
    have l': "loopAt ?s' i" using l loopAt_same[OF g] by simp
    have i: "inv_init ?s'"
      by (rule inv_init_endedI[OF l', of e]) (use na in simp_all)
    have "inv_deps ?s'" using pieces(3) inv_deps_same[OF g] by simp
    then show ?thesis unfolding inv_def using c i by blast
  qed
  show "inv (startInterrupted s)" if int: "interruptStart s \<noteq> None"
  proof -
    let ?s' = "startInterrupted s"
    note F = startInterrupted_fields[of s]
    have ctl: "phase s = P_stopping" "stopTask s = StopAwaitInterrupt" using pd int by blast+
    have c: "inv_ctl ?s'"
      by (rule inv_ctl_interruptedI) (simp_all add: F ctl notr)
    have l': "loopAt ?s' i" using l loopAt_same[OF F(1)] by simp
    have i: "inv_init ?s'"
      by (rule inv_init_endedI[OF l', of undefined])
        (use na in \<open>simp_all add: sameGuides[OF F(1)] F interrupted_def\<close>)
    have "inv_deps ?s'" using pieces(3) inv_deps_same[OF F(1)] by simp
    then show ?thesis unfolding inv_def using c i by blast
  qed
  show "inv (startFailed auto s)" if int: "interruptStart s = None"
  proof -
    let ?s' = "startFailed auto s"
    note F = startFailed_fields[of auto s]
    have ctl: "stopTask s = StopNotCalled" using pd int by auto
    have c: "inv_ctl ?s'"
      by (rule inv_ctl_settledI) (simp_all add: F ctl int)
    have l': "loopAt ?s' i" using l loopAt_same[OF F(1)] by simp
    have i: "inv_init ?s'"
      by (rule inv_init_endedI[OF l', of undefined])
        (use na in \<open>simp_all add: sameGuides[OF F(1)] F\<close>)
    have "inv_deps ?s'" using pieces(3) inv_deps_same[OF F(1)] by simp
    then show ?thesis unfolding inv_def using c i by blast
  qed
qed

lemma inv_start_resume:
  assumes inv: "inv s"
  shows "inv (start_resume s)"
proof (cases "startPromise s")
  case (StartAwaiting i opts)
  have pieces: "inv_ctl s" "inv_init s" "inv_deps s"
    using inv unfolding inv_def by blast+
  have pend: "isStartPending (startPromise s)" using StartAwaiting by simp
  note pd = inv_ctl_pendingD[OF pieces(1) pend]
  note notr = inv_ctl_pending_trace[OF pieces(1) pend]
  note l = inv_init_loopAt[OF pieces(2) StartAwaiting]
  have L: "i < guideCount s" "\<forall>j<i. returnedTruthy (guideAt s j)"
    "case initPromise (guideAt s i) of
           InitReturned v \<Rightarrow> v = coalesce (inst (guideAt s i)) JNull
         | _ \<Rightarrow> inst (guideAt s i) = JUndefined"
    "\<forall>k<guideCount s. i < k \<longrightarrow>
           initPromise (guideAt s k) = InitNotCalled \<and> inst (guideAt s k) = JUndefined"
    using l unfolding loopAt_def by blast+
  have e: "start_resume s =
      (case initPromise (guideAt s i) of
         InitReturned v \<Rightarrow> start_after_initialize i opts v s
       | InitThrew e \<Rightarrow> s\<lparr>startPromise := StartRejected e\<rparr>
       | _ \<Rightarrow> s)"
    using L(1) by (simp add: start_resume_def StartAwaiting guideAt_def guideCount_def)
  show ?thesis
  proof (cases "initPromise (guideAt s i)")
    case InitNotCalled
    then show ?thesis using e inv by simp
  next
    case (InitAwaiting t)
    then show ?thesis using e inv by simp
  next
    case (InitThrew err)
    then have na: "\<not> isAwaitingInit (initPromise (guideAt s i))" by simp
    show ?thesis using e InitThrew inv_ended(1)[OF inv StartAwaiting na] by simp
  next
    case (InitReturned v)
    then have na: "\<not> isAwaitingInit (initPromise (guideAt s i))" by simp
    note E = inv_ended[OF inv StartAwaiting na]
    have e': "start_resume s = start_after_initialize i opts v s"
      using e InitReturned by simp
    have v: "v = coalesce (inst (guideAt s i)) JNull" using L(3) InitReturned by simp
    consider (int) "interruptStart s \<noteq> None"
      | (fail) "interruptStart s = None" "\<not> truthy v"
      | (go) "interruptStart s = None" "truthy v"
      by blast
    then show ?thesis
    proof cases
      case int
      then show ?thesis using E(2) by (simp add: e' start_after_initialize_cases)
    next
      case fail
      show ?thesis
      proof (cases "wantsAutoStop opts")
        case True
        then have "start_resume s = snd (lifecycle_stop (startFailed True s))"
          using fail by (simp add: e' start_after_initialize_cases)
        then show ?thesis using inv_lifecycle_stop[OF E(3)[OF fail(1), of True]] by simp
      next
        case False
        then have "start_resume s = startFailed False s"
          using fail by (simp add: e' start_after_initialize_cases)
        then show ?thesis using E(3)[OF fail(1), of False] by simp
      qed
    next
      case go
      have ctl: "phase s = P_starting" "stopTask s = StopNotCalled" using pd go(1) by auto
      have iv: "inst (guideAt s i) = v" using v go(2) coalesce_JNull_truthy by metis
      have ri: "returnedTruthy (guideAt s i)"
        using InitReturned iv go(2) by (simp add: returnedTruthy_def)
      have before: "\<forall>j<Suc i. returnedTruthy (guideAt s j)"
        using L(2) ri less_Suc_eq by auto
      have e2: "start_resume s = start_iterate (Suc i) opts s"
        using go by (simp add: e' start_after_initialize_cases)
      show ?thesis
      proof (cases "Suc i < guideCount s")
        case True
        have e3: "start_resume s = (guide_initialize (Suc i) s)\<lparr>startPromise := StartAwaiting (Suc i) opts\<rparr>"
          using True by (simp add: e2 start_iterate_cases)
        have later: "\<forall>k<guideCount s. Suc i \<le> k \<longrightarrow>
                  initPromise (guideAt s k) = InitNotCalled \<and> inst (guideAt s k) = JUndefined"
          using L(4) by (simp add: Suc_le_eq)
        show ?thesis
          unfolding e3
          by (rule inv_start_at[OF True ctl(1,2) go(1) notr before later pieces(3)])
      next
        case False
        have e3: "start_resume s = startedAll s"
          using False by (simp add: e2 start_iterate_cases)
        have all: "\<forall>k<guideCount s. returnedTruthy (guideAt s k)"
          using before False by auto
        show ?thesis
          unfolding e3 by (rule inv_startedAll[OF ctl(2) go(1) all pieces(3)])
      qed
    qed
  qed
qed (use inv in \<open>simp_all add: start_resume_def\<close>)


section \<open>Calling \<open>configure\<close>\<close>

lemma cfgFrame_D:
  assumes "cfgFrame s s'"
  shows "guideCount s' = guideCount s" "phase s' = phase s" "startPromise s' = startPromise s"
    "stopTask s' = stopTask s" "interruptStart s' = interruptStart s" "stopped s' = stopped s"
    "\<And>k. initPromise (guideAt s' k) = initPromise (guideAt s k)"
    "\<And>k. inst (guideAt s' k) = inst (guideAt s k)"
    "\<And>k. dependents (guideAt s' k) = dependents (guideAt s k)"
    "\<And>k. finalizationPromise (guideAt s' k) = finalizationPromise (guideAt s k)"
    "\<exists>xs. trace s' = trace s @ xs \<and> (\<forall>e\<in>set xs. \<exists>i. e = ConfigureCalled i)"
  using assms unfolding cfgFrame_def by blast+

lemma cfgFrame_refl: "cfgFrame s s"
  by (simp add: cfgFrame_def)

lemma cfgFrame_trans:
  assumes a: "cfgFrame s s1" and b: "cfgFrame s1 s2"
  shows "cfgFrame s s2"
proof -
  note A = cfgFrame_D[OF a]
  note B = cfgFrame_D[OF b]
  obtain xs where xs: "trace s1 = trace s @ xs" "\<forall>e\<in>set xs. \<exists>i. e = ConfigureCalled i"
    using A(11) by blast
  obtain ys where ys: "trace s2 = trace s1 @ ys" "\<forall>e\<in>set ys. \<exists>i. e = ConfigureCalled i"
    using B(11) by blast
  have t: "\<exists>zs. trace s2 = trace s @ zs \<and> (\<forall>e\<in>set zs. \<exists>i. e = ConfigureCalled i)"
  proof (intro exI conjI)
    show "trace s2 = trace s @ (xs @ ys)" using xs(1) ys(1) by simp
    show "\<forall>e\<in>set (xs @ ys). \<exists>i. e = ConfigureCalled i" using xs(2) ys(2) by auto
  qed
  show ?thesis
    unfolding cfgFrame_def using t by (simp add: A B)
qed

lemma cfgFrame_updGuide:
  assumes "\<And>g. initPromise (f g) = initPromise g" "\<And>g. inst (f g) = inst g"
    "\<And>g. dependents (f g) = dependents g"
    "\<And>g. finalizationPromise (f g) = finalizationPromise g"
  shows "cfgFrame s (updGuide i f s)"
  unfolding cfgFrame_def by (simp add: guideAt_updGuide assms)

lemma cfgFrame_called: "cfgFrame s (observe (ConfigureCalled i) s)"
  unfolding cfgFrame_def by simp

lemma cfgFrame_state:
  "cfgFrame s (updGuide i (\<lambda>g. g\<lparr>state := st\<rparr>) s)"
  "cfgFrame s (updGuide i (\<lambda>g. g\<lparr>cfg := v, state := st\<rparr>) s)"
  by (rule cfgFrame_updGuide; simp)+

lemma guide_configure_frame: "cfgFrame s (snd (guide_configure envVars i s))"
proof (cases "mod_configure (modDesc (modGuides s ! i))")
  case None
  then show ?thesis by (simp add: guide_configure_def cfgFrame_state)
next
  case (Some f)
  let ?s1 = "observe (ConfigureCalled i) (updGuide i (\<lambda>g. g\<lparr>state := M_configuring\<rparr>) s)"
  have a: "cfgFrame s ?s1"
    by (rule cfgFrame_trans[OF cfgFrame_state(1) cfgFrame_called])
  have b: "cfgFrame ?s1 (snd (guide_configure envVars i s))"
    using Some
    by (simp add: guide_configure_def Let_def cfgFrame_state split: CfgResult.splits sum.splits)
  show ?thesis by (rule cfgFrame_trans[OF a b])
qed

lemma configure_all_frame: "cfgFrame s (snd (configure_all envVars todo s))"
proof (induction todo arbitrary: s)
  case Nil
  then show ?case by (simp add: cfgFrame_refl)
next
  case (Cons i rest)
  obtain r s1 where g: "guide_configure envVars i s = (r, s1)"
    by (cases "guide_configure envVars i s")
  have a: "cfgFrame s s1" using guide_configure_frame[of s envVars i] g by simp
  show ?case
  proof (cases r)
    case (Inl e)
    then show ?thesis using a g by simp
  next
    case (Inr res)
    obtain rs s2 where c: "configure_all envVars rest s1 = (rs, s2)"
      by (cases "configure_all envVars rest s1")
    have b: "cfgFrame s1 s2" using Cons.IH[of s1] c by simp
    have "snd (configure_all envVars (i # rest) s) = s2"
      using g Inr c by (cases rs) simp_all
    then show ?thesis using cfgFrame_trans[OF a b] by simp
  qed
qed

lemma inv_ctl_idleI:
  assumes "phase s \<in> {P_loading, P_configuring, P_configured, P_configuration_failed}"
    "startPromise s = StartNotCalled" "stopTask s = StopNotCalled" "interruptStart s = None"
    "PhaseChanged P_ready \<notin> set (trace s)" "PhaseChanged P_starting_failed \<notin> set (trace s)"
  shows "inv_ctl s"
  unfolding inv_ctl_def using assms by auto

lemma lifecycle_configure_other:
  "phase s \<noteq> P_loading \<Longrightarrow> snd (lifecycle_configure envVars s) = s"
  by (simp add: lifecycle_configure_def changePhase_def)

lemma lifecycle_configure_loading:
  assumes "phase s = P_loading"
  shows "\<exists>s2. cfgFrame (observe (PhaseChanged P_configuring) (s\<lparr>phase := P_configuring\<rparr>)) s2
      \<and> (snd (lifecycle_configure envVars s) = s2
          \<or> (\<exists>p. (p = P_configured \<or> p = P_configuration_failed)
                \<and> snd (lifecycle_configure envVars s) = observe (PhaseChanged p) (s2\<lparr>phase := p\<rparr>)))"
proof -
  let ?s1 = "observe (PhaseChanged P_configuring) (s\<lparr>phase := P_configuring\<rparr>)"
  obtain rs s2 where c: "configure_all envVars [0..<length (modGuides ?s1)] ?s1 = (rs, s2)"
    by (cases "configure_all envVars [0..<length (modGuides ?s1)] ?s1")
  have f: "cfgFrame ?s1 s2"
    using configure_all_frame[of ?s1 envVars "[0..<length (modGuides ?s1)]"] c by simp
  have cp: "changePhase P_configuring (Some [P_loading]) s = Inr ?s1"
    using assms by (simp add: changePhase_def)
  have "snd (lifecycle_configure envVars s) = s2
          \<or> (\<exists>p. (p = P_configured \<or> p = P_configuration_failed)
                \<and> snd (lifecycle_configure envVars s) = observe (PhaseChanged p) (s2\<lparr>phase := p\<rparr>))"
  proof (cases rs)
    case (Inl e)
    then show ?thesis using c cp by (simp add: lifecycle_configure_def)
  next
    case (Inr results)
    then show ?thesis
      using c cp by (auto simp: lifecycle_configure_def Let_def)
  qed
  then show ?thesis using f by blast
qed

lemma inv_lifecycle_configure:
  assumes inv: "inv s"
  shows "inv (snd (lifecycle_configure envVars s))"
proof (cases "phase s = P_loading")
  case False
  then show ?thesis using inv by (simp add: lifecycle_configure_other)
next
  case True
  let ?s1 = "observe (PhaseChanged P_configuring) (s\<lparr>phase := P_configuring\<rparr>)"
  let ?s' = "snd (lifecycle_configure envVars s)"
  have pieces: "inv_ctl s" "inv_init s" "inv_deps s"
    using inv unfolding inv_def by blast+
  have ctl: "startPromise s = StartNotCalled" "stopTask s = StopNotCalled" "interruptStart s = None"
    using pieces(1) True unfolding inv_ctl_def by blast+
  have old: "PhaseChanged P_ready \<notin> set (trace s)" "PhaseChanged P_starting_failed \<notin> set (trace s)"
    using pieces(1) ctl(1) unfolding inv_ctl_def by auto
  obtain s2 where f: "cfgFrame ?s1 s2"
    and e: "?s' = s2 \<or> (\<exists>p. (p = P_configured \<or> p = P_configuration_failed)
                \<and> ?s' = observe (PhaseChanged p) (s2\<lparr>phase := p\<rparr>))"
    using lifecycle_configure_loading[OF True] by blast
  note D = cfgFrame_D[OF f]
  obtain xs where xs: "trace s2 = trace ?s1 @ xs" "\<forall>e\<in>set xs. \<exists>i. e = ConfigureCalled i"
    using D(11) by blast
  have t2: "PhaseChanged P_ready \<notin> set (trace s2)" "PhaseChanged P_starting_failed \<notin> set (trace s2)"
    using xs old by auto
  have g: "guideCount ?s' = guideCount s" "startPromise ?s' = StartNotCalled"
    "stopTask ?s' = StopNotCalled" "interruptStart ?s' = None"
    "\<And>k. initPromise (guideAt ?s' k) = initPromise (guideAt s k)"
    "\<And>k. inst (guideAt ?s' k) = inst (guideAt s k)"
    "\<And>k. dependents (guideAt ?s' k) = dependents (guideAt s k)"
    "phase ?s' \<in> {P_loading, P_configuring, P_configured, P_configuration_failed}"
    "PhaseChanged P_ready \<notin> set (trace ?s')" "PhaseChanged P_starting_failed \<notin> set (trace ?s')"
    using e D(1-9) ctl t2 by auto
  have c: "inv_ctl ?s'"
    by (rule inv_ctl_idleI) (rule g)+
  have i: "inv_init ?s'"
    using pieces(2) inv_init_cong[of ?s' s] g ctl(1) by simp
  have d: "inv_deps ?s'"
    using pieces(3) inv_deps_cong[of ?s' s] g by simp
  show ?thesis
    unfolding inv_def using c i d by blast
qed

section \<open>The engine \<open>complete\<close> makes\<close>

lemma complete_fields:
  "phase (complete b) = P_loading" "startPromise (complete b) = StartNotCalled"
  "stopTask (complete b) = StopNotCalled" "interruptStart (complete b) = None"
  "stopped (complete b) = None" "trace (complete b) = []"
  by (simp_all add: complete_def makeLifecycle_def Let_def)

lemma complete_guides:
  assumes "k < guideCount (complete b)"
  shows "\<exists>nm m deps. guideAt (complete b) k = makeModState nm m deps"
proof -
  let ?vs = "map snd (guidesByName b)"
  have k: "k < length ?vs"
    using assms by (simp add: complete_def makeLifecycle_def Let_def guideCount_def)
  obtain nm m deps where "made b ! (?vs ! k) = (nm, m, deps)"
    by (cases "made b ! (?vs ! k)")
  then show ?thesis
    using k by (auto simp: complete_def makeLifecycle_def Let_def guideAt_def)
qed

lemma complete_guide_fields:
  assumes "k < guideCount (complete b)"
  shows "initPromise (guideAt (complete b) k) = InitNotCalled"
    "inst (guideAt (complete b) k) = JUndefined" "dependents (guideAt (complete b) k) = []"
    "finalizationPromise (guideAt (complete b) k) = None"
  using complete_guides[OF assms] by (auto simp: makeModState_def)

lemma inv_complete: "inv (complete b)"
proof -
  note F = complete_fields[of b]
  have c: "inv_ctl (complete b)"
    by (rule inv_ctl_idleI) (simp_all add: F)
  have i: "inv_init (complete b)"
    unfolding inv_init_def by (simp add: F complete_guide_fields)
  have d: "inv_deps (complete b)"
    unfolding inv_deps_def by (simp add: complete_guide_fields)
  show ?thesis
    unfolding inv_def using c i d by blast
qed

section \<open>Every state of a run\<close>

lemma inv_step: "inv s \<Longrightarrow> inv (step e s)"
  by (cases e)
    (simp_all add: inv_lifecycle_configure inv_lifecycle_start inv_lifecycle_stop
       inv_initialize_settled inv_start_resume inv_stop_resume
       inv_finalize_dependents_settled inv_finalize_callback_settled)

lemma run_Nil [simp]: "run [] s = s"
  by (simp add: run_def)

lemma run_Cons [simp]: "run (e # evs) s = run evs (step e s)"
  by (simp add: run_def)

lemma run_append: "run (evs @ evs') s = run evs' (run evs s)"
  by (simp add: run_def)

lemma inv_run: "inv s \<Longrightarrow> inv (run evs s)"
  by (induction evs arbitrary: s) (simp_all add: inv_step)

lemma inv_reachable: "inv (run evs (complete b))"
  by (rule inv_run[OF inv_complete])


section \<open>After \<open>start\<close> has returned\<close>

lemma frozen_D:
  assumes "frozen s s'"
  shows "guideCount s' = guideCount s" "startPromise s' = startPromise s"
    "\<And>k. initPromise (guideAt s' k) = initPromise (guideAt s k)"
    "\<And>k. inst (guideAt s' k) = inst (guideAt s k)"
  using assms unfolding frozen_def by blast+

lemma frozen_refl: "frozen s s"
  by (simp add: frozen_def)

lemma frozen_trans: "frozen s s1 \<Longrightarrow> frozen s1 s2 \<Longrightarrow> frozen s s2"
  by (simp add: frozen_def)

lemma keepsStart_frozen: "keepsStart s s' \<Longrightarrow> frozen s s'"
  by (simp add: frozen_def keepsStart_def)

lemma frozen_same:
  assumes "modGuides s' = modGuides s" "startPromise s' = startPromise s"
  shows "frozen s s'"
  unfolding frozen_def by (simp add: sameGuides[OF assms(1)] assms(2))

lemma keepsStart_finalize_callback_settled: "keepsStart s (finalize_callback_settled i r s)"
  unfolding finalize_callback_settled_def
  by (simp add: keepsStart_refl keepsStart_finalization_finished
        split: option.splits FinPromise.splits)

lemma keepsStart_finalize_dependents_settled: "keepsStart s (finalize_dependents_settled i s)"
  unfolding finalize_dependents_settled_def
  by (simp add: keepsStart_refl keepsStart_finalizing keepsStart_set_promise
        split: option.splits FinPromise.splits)

lemma frozen_stop_loop: "frozen s (stop_loop todo fps s)"
  using stop_loop_keeps[of s todo fps] keepsStart_frozen by blast

lemma frozen_lifecycle_stop: "frozen s (snd (lifecycle_stop s))"
proof -
  have a: "frozen s (interruptRequested s)"
    by (rule frozen_same) (simp_all add: interruptRequested_fields)
  have b: "frozen s (stoppingBegun s)"
    by (rule frozen_same) (simp_all add: stoppingBegun_fields)
  have c: "frozen s ((stoppingBegun s)\<lparr>stopTask := StopAwaitInterrupt\<rparr>)"
    by (rule frozen_same) (simp_all add: stoppingBegun_fields)
  have d: "frozen s (stop_loop (reversedModGuides (stoppingBegun s)) [] (stoppingBegun s))"
    by (rule frozen_trans[OF b frozen_stop_loop])
  show ?thesis
    unfolding lifecycle_stop_cases using a c d by (simp add: frozen_refl)
qed

lemma frozen_stop_resume: "frozen s (stop_resume s)"
proof -
  have a: "frozen s (stop_loop rest fps (guide_finalize i s))" for rest fps i
    by (rule frozen_trans[OF keepsStart_frozen[OF keepsStart_guide_finalize] frozen_stop_loop])
  have b: "frozen s (finished ok s)" for ok
    by (rule frozen_same) (simp_all add: finished_fields)
  have c: "frozen s (s\<lparr>stopTask := t\<rparr>)" for t
    by (rule frozen_same) simp_all
  show ?thesis
    unfolding stop_resume_cases
    by (simp add: frozen_refl frozen_stop_loop a b c
          split: StopTask.splits option.splits list.splits)
qed

lemma inv_ctl_resolved:
  assumes "inv_ctl s" "isStartResolved (startPromise s)"
  shows "phase s \<noteq> P_loading" "phase s \<noteq> P_configured"
proof -
  have "phase s \<in> {P_loading, P_configuring, P_configured, P_configuration_failed}
      \<longrightarrow> startPromise s = StartNotCalled"
    using assms(1) unfolding inv_ctl_def by blast
  then show "phase s \<noteq> P_loading" "phase s \<noteq> P_configured"
    using assms(2) by auto
qed

lemma inv_init_resolved:
  assumes "inv_init s" "isStartResolved (startPromise s)" "k < guideCount s"
  shows "\<not> isAwaitingInit (initPromise (guideAt s k))"
proof
  assume "isAwaitingInit (initPromise (guideAt s k))"
  then have "\<exists>opts. startPromise s = StartAwaiting k opts"
    using assms(1,3) unfolding inv_init_def by blast
  then show False using assms(2) by auto
qed

lemma frozen_step:
  assumes inv: "inv s" and res: "isStartResolved (startPromise s)"
  shows "frozen s (step e s)"
proof -
  have pieces: "inv_ctl s" "inv_init s"
    using inv unfolding inv_def by blast+
  note ph = inv_ctl_resolved[OF pieces(1) res]
  show ?thesis
  proof (cases e)
    case (CallConfigure envVars)
    then show ?thesis using ph by (simp add: lifecycle_configure_other frozen_refl)
  next
    case (CallStart opts)
    then show ?thesis using ph by (simp add: lifecycle_start_other frozen_refl)
  next
    case CallStop
    then show ?thesis by (simp add: frozen_lifecycle_stop)
  next
    case (InitializeSettles i r)
    have "initialize_settled i r s = s"
      using inv_init_resolved[OF pieces(2) res, of i]
      by (auto simp: initialize_settled_cases split: InitPromise.splits)
    then show ?thesis using InitializeSettles by (simp add: frozen_refl)
  next
    case StartResumes
    have "start_resume s = s"
      using res by (cases "startPromise s") (simp_all add: start_resume_def)
    then show ?thesis using StartResumes by (simp add: frozen_refl)
  next
    case StopResumes
    then show ?thesis by (simp add: frozen_stop_resume)
  next
    case (DependentsSettled i)
    then show ?thesis
      by (simp add: keepsStart_frozen[OF keepsStart_finalize_dependents_settled])
  next
    case (FinalizeSettles i r)
    then show ?thesis
      by (simp add: keepsStart_frozen[OF keepsStart_finalize_callback_settled])
  qed
qed

lemma frozen_run:
  assumes "inv s" "isStartResolved (startPromise s)"
  shows "frozen s (run evs s)"
  using assms
proof (induction evs arbitrary: s)
  case Nil
  then show ?case by (simp add: frozen_refl)
next
  case (Cons e evs)
  note f = frozen_step[OF Cons.prems, of e]
  have r: "isStartResolved (startPromise (step e s))"
    using Cons.prems(2) frozen_D(2)[OF f] by simp
  have "frozen (step e s) (run evs (step e s))"
    by (rule Cons.IH[OF inv_step[OF Cons.prems(1)] r])
  then show ?case using frozen_trans[OF f] by simp
qed

text \<open>Where the loop of \<open>start\<close> has ended, once \<open>start\<close> has returned without having started every module.\<close>

lemma loopAt_unique:
  assumes "loopAt s i" "loopAt s k"
  shows "i = k"
proof (rule ccontr)
  assume ne: "i \<noteq> k"
  have A: "i < guideCount s" "\<And>j. j < i \<Longrightarrow> returnedTruthy (guideAt s j)"
    "initPromise (guideAt s i) \<noteq> InitNotCalled"
    "\<And>j. j < guideCount s \<Longrightarrow> i < j \<Longrightarrow> initPromise (guideAt s j) = InitNotCalled"
    using assms(1) unfolding loopAt_def by blast+
  have B: "k < guideCount s" "\<And>j. j < k \<Longrightarrow> returnedTruthy (guideAt s j)"
    "initPromise (guideAt s k) \<noteq> InitNotCalled"
    "\<And>j. j < guideCount s \<Longrightarrow> k < j \<Longrightarrow> initPromise (guideAt s j) = InitNotCalled"
    using assms(2) unfolding loopAt_def by blast+
  show False
  proof (cases "i < k")
    case True
    then show ?thesis using A(4)[OF B(1)] B(3) by simp
  next
    case False
    then have "k < i" using ne by simp
    then show ?thesis using B(4)[OF A(1)] A(3) by simp
  qed
qed

lemma loopAt_frozen:
  assumes "frozen s s'"
  shows "loopAt s' i = loopAt s i"
  unfolding loopAt_def returnedTruthy_def
  by (simp add: frozen_D[OF assms] cong: InitPromise.case_cong)

section \<open>A \<open>finalize\<close> that throws\<close>

text \<open>
  C7 does not hold of the code when a \<open>finalize\<close> callback throws instead of returning a
  promise. With the modules \<open>lifecycle\<close>, \<open>a\<close> and \<open>b\<close> started, \<open>stop()\<close> calls
  \<open>finalize\<close> of \<open>b\<close> and of \<open>a\<close>; the exception of \<open>a\<close>'s callback rejects the promise of
  its guide, whose state stays \<open>finalizing\<close>; the \<open>await Promise.all\<close> before the flagged
  guide \<open>lifecycle\<close> throws, so that the block of \<open>stop\<close> ends there: \<open>finalize\<close> of
  \<open>lifecycle\<close> is never attempted, the phase stays \<open>stopping\<close> and \<open>stopped\<close> is never
  resolved, also after \<open>b\<close> has finished.
\<close>

theorem throwing_finalize_ends_the_pass:
  "phase throwingStarted = P_ready
   \<and> phase throwingStopped = P_stopping
   \<and> stopped throwingStopped = None
   \<and> stopTask throwingStopped = StopRejected (Thrown (JStr ''boom''))
   \<and> map name (modGuides throwingStopped) = [''lifecycle'', ''a'', ''b'']
   \<and> map state (modGuides throwingStopped) = [M_initialized, M_finalizing, M_finalized]
   \<and> map finalizationPromise (modGuides throwingStopped)
       = [None, Some (FinFailed (Thrown (JStr ''boom''))), Some (FinFulfilled True)]"
  by code_simp

text \<open>
  C1 does not hold of the code for the same reason. The module \<open>p\<close> has the dependents
  \<open>d1\<close> and \<open>d2\<close>. After \<open>stop()\<close>, the callback of \<open>d1\<close> has thrown, and the
  \<open>Promise.all\<close> in \<open>finalize\<close> of \<open>p\<close> is rejected with it: the promise of \<open>p\<close>'s
  \<open>finalize\<close> is settled while that of its dependent \<open>d2\<close> is pending.
\<close>

theorem dependency_settles_before_dependent:
  "phase dependentsStarted = P_ready
   \<and> map name (modGuides dependentsStarted) = [''lifecycle'', ''p'', ''d1'', ''d2'']
   \<and> map dependents (modGuides dependentsStarted) = [[], [2, 3], [], []]
   \<and> map finalizationPromise (modGuides dependentsStopping)
       = [None, Some (FinFailed (Thrown (JStr ''boom''))),
          Some (FinFailed (Thrown (JStr ''boom''))), Some FinAwaitCallback]
   \<and> map state (modGuides dependentsStopping)
       = [M_initialized, M_awaiting_finalization, M_finalizing, M_finalizing]"
  by code_simp

section \<open>A module whose name is an array index\<close>

text \<open>
  C2 does not hold of the code when a name is an array index. The module \<open>x\<close> is
  registered before the flagged module \<open>5\<close>, so that it comes after it in the reverse
  order of registration; the engine gets the guides in the order \<open>5\<close>, \<open>lifecycle\<close>,
  \<open>x\<close>, and \<open>stop()\<close> calls \<open>finalize\<close> of \<open>x\<close> first: \<open>x\<close> is finalized when
  \<open>finalize\<close> of the flagged module has not begun.
\<close>

theorem flagged_guide_finalized_after_earlier_guide:
  "map fst (made flaggedStack) = [''lifecycle'', ''x'', ''5'']
   \<and> map name (modGuides flaggedStopping) = [''5'', ''lifecycle'', ''x'']
   \<and> map isOrdered (modGuides flaggedStopping) = [True, True, False]
   \<and> phase flaggedStarted = P_ready
   \<and> map state (modGuides flaggedStopping) = [M_initialized, M_initialized, M_finalized]
   \<and> map finalizationPromise (modGuides flaggedStopping) = [None, None, Some (FinFulfilled True)]
   \<and> stopTask flaggedStopping = StopAwaitAll [1, 0] [OfGuide 2]"
  by code_simp

text \<open>
  C3 does not hold of the code for the same reason. The module \<open>1\<close> takes the instance
  of the module \<open>a\<close> registered before it, and is the first guide of the engine:
  \<open>getInstance\<close> of \<open>a\<close> throws in its \<open>initialize\<close>. With \<open>stop()\<close> called while
  \<open>start()\<close> awaits that promise, \<open>start()\<close> is rejected instead of returning
  \<open>{started: false, stopping: true}\<close>; \<open>interruptStart\<close> is never resolved, and the block
  of \<open>stop\<close> stays at its first \<open>await\<close>.
\<close>

theorem interrupted_start_is_rejected:
  "map fst (made indexDepStack) = [''lifecycle'', ''a'', ''1'']
   \<and> map name (modGuides indexDepStopped) = [''1'', ''lifecycle'', ''a'']
   \<and> map depMap (modGuides indexDepStopped) = [[Listed 2], [], []]
   \<and> startPromise indexDepStopped
       = StartRejected (ModstackError ''uninitialized_instance''
                          ''Uninitialized instance cannot be retrieved.'')
   \<and> phase indexDepStopped = P_stopping
   \<and> interruptStart indexDepStopped = Some False
   \<and> stopTask indexDepStopped = StopAwaitInterrupt
   \<and> map finalizationPromise (modGuides indexDepStopped) = [None, None, None]"
  by code_simp


end
